theory Spec2Isabelle
  imports Complex_Main "HOL-Library.List_Lexorder" "HOL-Library.Char_ord" "HOL-Library.Log_Nat"
begin

section \<open>Go's \<^verbatim>\<open>time\<close> package on calendar dates\<close>

text \<open>
  Every \<^verbatim>\<open>time.Time\<close> the fetcher handles is a date at midnight UTC: it comes from
  \<^verbatim>\<open>time.Parse("20060102", s)\<close>, from \<^verbatim>\<open>time.Date(y, m, 1, 0, 0, 0, 0, UTC)\<close> or from
  \<^verbatim>\<open>AddDate\<close> on such a value. A \<open>Time\<close> is therefore the number of days since
  0001-01-01, the zero value \<^verbatim>\<open>time.Time{}\<close> being day 0. The conversions between day
  numbers and civil dates follow the library: \<^verbatim>\<open>daysSinceEpoch\<close>, the \<^verbatim>\<open>daysBefore\<close> table,
  the normalising \<^verbatim>\<open>Date\<close>, and \<^verbatim>\<open>absDate\<close> cutting 400, 100, 4 and 1 year cycles.
\<close>

type_synonym Time = int

definition zeroTime :: Time where
  "zeroTime = 0"

definition isLeap :: "int \<Rightarrow> bool" where
  "isLeap year \<longleftrightarrow> year mod 4 = 0 \<and> (year mod 100 \<noteq> 0 \<or> year mod 400 = 0)"

definition daysSinceEpoch :: "int \<Rightarrow> int" where
  "daysSinceEpoch year =
     365 * (year - 1) + (year - 1) div 4 - (year - 1) div 100 + (year - 1) div 400"

definition daysBefore :: "int \<Rightarrow> int" where
  "daysBefore m = [0, 31, 59, 90, 120, 151, 181, 212, 243, 273, 304, 334, 365] ! nat m"

definition daysIn :: "int \<Rightarrow> int \<Rightarrow> int" where
  "daysIn m year =
     (if m = 2 \<and> isLeap year then 29 else daysBefore m - daysBefore (m - 1))"

text \<open>\<^verbatim>\<open>time.Date\<close>: months outside 1..12 carry into the year, days are added as they are.\<close>

definition Date :: "int \<Rightarrow> int \<Rightarrow> int \<Rightarrow> Time" where
  "Date year month day =
     (let m = month - 1;
          year' = year + m div 12;
          month' = m mod 12 + 1
      in daysSinceEpoch year' + daysBefore (month' - 1)
         + (if isLeap year' \<and> 3 \<le> month' then 1 else 0) + (day - 1))"

text \<open>\<^verbatim>\<open>absDate\<close>: the year and the zero-based day of the year; \<open>n - n div 4\<close> is the
  library's \<^verbatim>\<open>n -= n >> 2\<close>.\<close>

definition absDate :: "Time \<Rightarrow> int \<times> int" where
  "absDate d =
     (let n400 = d div 146097;
          d1 = d mod 146097;
          n100' = d1 div 36524;
          n100 = n100' - n100' div 4;
          d2 = d1 - 36524 * n100;
          n4 = d2 div 1461;
          d3 = d2 mod 1461;
          n1' = d3 div 365;
          n1 = n1' - n1' div 4;
          yday = d3 - 365 * n1
      in (400 * n400 + 100 * n100 + 4 * n4 + n1 + 1, yday))"

definition monthOfDay :: "int \<Rightarrow> int \<times> int" where
  "monthOfDay day =
     (let m = day div 31;
          e = daysBefore (m + 1)
      in if e \<le> day then (m + 2, day - e + 1) else (m + 1, day - daysBefore m + 1))"

definition monthDay :: "int \<Rightarrow> int \<Rightarrow> int \<times> int" where
  "monthDay year yday =
     (if isLeap year \<and> yday = 59 then (2, 29)
      else monthOfDay (if isLeap year \<and> 59 < yday then yday - 1 else yday))"

text \<open>\<^verbatim>\<open>t.Date()\<close>: year, month and day of a time.\<close>

definition dateOf :: "Time \<Rightarrow> int \<times> int \<times> int" where
  "dateOf t = (case absDate t of (year, yday) \<Rightarrow>
               (case monthDay year yday of (month, day) \<Rightarrow> (year, month, day)))"

definition Year :: "Time \<Rightarrow> int" where
  "Year t = fst (dateOf t)"

definition Month :: "Time \<Rightarrow> int" where
  "Month t = fst (snd (dateOf t))"

definition AddDate :: "Time \<Rightarrow> int \<Rightarrow> int \<Rightarrow> int \<Rightarrow> Time" where
  "AddDate t years months days =
     (case dateOf t of (year, month, day) \<Rightarrow> Date (year + years) (month + months) (day + days))"

definition After :: "Time \<Rightarrow> Time \<Rightarrow> bool" where
  "After t u \<longleftrightarrow> u < t"

definition Before :: "Time \<Rightarrow> Time \<Rightarrow> bool" where
  "Before t u \<longleftrightarrow> t < u"

text \<open>\<^verbatim>\<open>time.Weekday\<close>: Sunday is 0 and Saturday is 6; day 0 (0001-01-01) is a Monday.\<close>

definition Sunday :: int where "Sunday = 0"
definition Thursday :: int where "Thursday = 4"
definition Friday :: int where "Friday = 5"
definition Saturday :: int where "Saturday = 6"

definition Weekday :: "Time \<Rightarrow> int" where
  "Weekday t = (t + 1) mod 7"

text \<open>\<^verbatim>\<open>t.ISOWeek()\<close>: move to the Thursday of the week (Sunday counts as the last day),
  then take that day's year and its day of the year divided by 7.\<close>

definition ISOWeek :: "Time \<Rightarrow> int \<times> int" where
  "ISOWeek t =
     (let d0 = Thursday - Weekday t;
          d = (if d0 = 4 then - 3 else d0)
      in case absDate (t + d) of (year, yday) \<Rightarrow> (year, yday div 7 + 1))"

subsection \<open>Formatting and parsing the layouts \<^verbatim>\<open>20060102\<close> and \<^verbatim>\<open>200601\<close>\<close>

definition isDigit :: "char \<Rightarrow> bool" where
  "isDigit c \<longleftrightarrow> (48::nat) \<le> of_char c \<and> of_char c \<le> (57::nat)"

definition digitVal :: "char \<Rightarrow> int" where
  "digitVal c = of_char c - 48"

definition digitChar :: "int \<Rightarrow> char" where
  "digitChar n = char_of (48 + n)"

definition atoi :: "string \<Rightarrow> int" where
  "atoi s = foldl (\<lambda>x c. x * 10 + digitVal c) 0 s"

function utoa :: "int \<Rightarrow> string" where
  "utoa u = (if u < 10 then [digitChar u] else utoa (u div 10) @ [digitChar (u mod 10)])"
  by pat_completeness auto
termination
  by (relation "measure nat") auto

declare utoa.simps [simp del]

text \<open>\<^verbatim>\<open>appendInt\<close>: a sign, then the decimal digits padded with zeros to the width; the
  two-digit and four-digit fields are the library's fast paths.\<close>

definition appendInt :: "int \<Rightarrow> nat \<Rightarrow> string" where
  "appendInt x width =
     (let u = \<bar>x\<bar>;
          sign = (if x < 0 then ''-'' else '''')
      in if width = 2 \<and> u < 100 then sign @ [digitChar (u div 10), digitChar (u mod 10)]
         else if width = 4 \<and> u < 10000 then
           sign @ [digitChar (u div 1000), digitChar (u div 100 mod 10),
                   digitChar (u div 10 mod 10), digitChar (u mod 10)]
         else sign @ replicate (width - length (utoa u)) CHR ''0'' @ utoa u)"

definition Format_20060102 :: "Time \<Rightarrow> string" where
  "Format_20060102 t = (case dateOf t of (year, month, day) \<Rightarrow>
     appendInt year 4 @ appendInt month 2 @ appendInt day 2)"

definition Format_200601 :: "Time \<Rightarrow> string" where
  "Format_200601 t = (case dateOf t of (year, month, day) \<Rightarrow>
     appendInt year 4 @ appendInt month 2)"

text \<open>\<^verbatim>\<open>time.Parse("20060102", value)\<close>: exactly eight digits, a month in 1..12 and a day
  that exists in that month; anything else is an error (\<open>None\<close>).\<close>

fun Parse_20060102 :: "string \<Rightarrow> Time option" where
  "Parse_20060102 [y1, y2, y3, y4, m1, m2, d1, d2] =
     (if \<not> (isDigit y1 \<and> isDigit y2 \<and> isDigit y3 \<and> isDigit y4 \<and> isDigit m1 \<and> isDigit m2
             \<and> isDigit d1 \<and> isDigit d2) then None
      else let year = atoi [y1, y2, y3, y4]; month = atoi [m1, m2]; day = atoi [d1, d2]
           in if month \<le> 0 \<or> 12 < month then None
              else if day < 1 \<or> daysIn month year < day then None
              else Some (Date year month day))"
| "Parse_20060102 _ = None"

text \<open>\<^verbatim>\<open>t, _ := time.Parse("20060102", s)\<close>: the error is dropped and \<open>t\<close> is the zero time.\<close>

definition parseIgnoringError :: "string \<Rightarrow> Time" where
  "parseIgnoringError s = (case Parse_20060102 s of Some t \<Rightarrow> t | None \<Rightarrow> zeroTime)"

subsection \<open>Facts about the calendar\<close>

text \<open>The length of a year, the leap day's shift of the month table and the number a date
  reads as in the layout \<^verbatim>\<open>20060102\<close>, for the proofs.\<close>

definition yearLen :: "int \<Rightarrow> int" where
  "yearLen y = (if isLeap y then 366 else 365)"

definition leapAdj :: "int \<Rightarrow> int \<Rightarrow> int" where
  "leapAdj y m = (if isLeap y \<and> 3 \<le> m then 1 else 0)"

definition dateNum :: "Time \<Rightarrow> int" where
  "dateNum t = (case dateOf t of (year, month, day) \<Rightarrow> 10000 * year + 100 * month + day)"

lemma div_lb: "0 < b \<Longrightarrow> b * (k div b) \<le> k" for k b :: int
  by (metis mult.commute div_mult_mod_eq pos_mod_sign add.commute le_add_same_cancel2 )
lemma div_ub: "0 < b \<Longrightarrow> k < b * (k div b) + b" for k b :: int
  by (metis add_le_cancel_left div_mult_mod_eq linorder_not_le mult.commute pos_mod_bound)

lemma clip4: "0 \<le> n \<Longrightarrow> n \<le> 4 \<Longrightarrow> n - n div 4 = min n 3" for n :: int
proof -
  assume "0 \<le> n" "n \<le> 4"
  then consider "n = 0" | "n = 1" | "n = 2" | "n = 3" | "n = 4" by linarith
  then show ?thesis by cases simp_all
qed

lemma absDate_char:
  assumes "absDate d = (y, yd)"
  shows "d = daysSinceEpoch y + yd \<and> 0 \<le> yd \<and> yd < yearLen y"
proof -
  define n400 where "n400 = d div 146097"
  define d1 where "d1 = d mod 146097"
  define q1 where "q1 = d1 div 36524"
  define n100 where "n100 = q1 - q1 div 4"
  define d2 where "d2 = d1 - 36524 * n100"
  define n4 where "n4 = d2 div 1461"
  define d3 where "d3 = d2 mod 1461"
  define q3 where "q3 = d3 div 365"
  define n1 where "n1 = q3 - q3 div 4"
  have "absDate d = (400 * n400 + 100 * n100 + 4 * n4 + n1 + 1, d3 - 365 * n1)"
    unfolding absDate_def Let_def n400_def d1_def q1_def n100_def d2_def n4_def d3_def q3_def n1_def
    by (rule refl)
  with assms have y_eq: "y = 400 * n400 + 100 * n100 + 4 * n4 + n1 + 1"
    and yd_eq: "yd = d3 - 365 * n1" by simp_all
  have d_eq: "d = 146097 * n400 + d1"
    unfolding n400_def d1_def by simp
  have d1b: "0 \<le> d1" "d1 < 146097" unfolding d1_def by simp_all
  have q1b: "0 \<le> q1" "q1 \<le> 4"
    unfolding q1_def using d1b div_lb[of 36524 d1] div_ub[of 36524 d1] by linarith+
  have n100m: "n100 = min q1 3" unfolding n100_def using q1b by (rule clip4)
  have n100b: "0 \<le> n100" "n100 \<le> 3" unfolding n100m using q1b by simp_all
  have d2b: "0 \<le> d2" "d2 \<le> 36524"
    unfolding d2_def n100m using d1b div_lb[of 36524 d1] div_ub[of 36524 d1] q1b
    unfolding q1_def[symmetric] min_def by (simp_all; linarith)+
  have n4b: "0 \<le> n4" "n4 \<le> 24"
    unfolding n4_def using d2b div_lb[of 1461 d2] div_ub[of 1461 d2] by linarith+
  have d2_eq: "d2 = 1461 * n4 + d3" unfolding n4_def d3_def by simp
  have d3b: "0 \<le> d3" "d3 < 1461" unfolding d3_def by simp_all
  have q3b: "0 \<le> q3" "q3 \<le> 4"
    unfolding q3_def using d3b div_lb[of 365 d3] div_ub[of 365 d3] by linarith+
  have n1m: "n1 = min q3 3" unfolding n1_def using q3b by (rule clip4)
  have n1b: "0 \<le> n1" "n1 \<le> 3" unfolding n1m using q3b by simp_all
  have ydb: "0 \<le> yd" "yd \<le> 365" "yd = 365 \<longrightarrow> n1 = 3 \<and> d3 = 1460"
    unfolding yd_eq n1m using d3b div_lb[of 365 d3] div_ub[of 365 d3] q3b
    unfolding q3_def[symmetric] min_def by (simp_all; linarith)+
  have k4: "(y - 1) div 4 = 100 * n400 + 25 * n100 + n4"
    by (rule int_div_pos_eq[where r = n1]) (use n1b y_eq in simp_all)
  have k100: "(y - 1) div 100 = 4 * n400 + n100"
    by (rule int_div_pos_eq[where r = "4 * n4 + n1"]) (use n1b n4b y_eq in simp_all)
  have k400: "(y - 1) div 400 = n400"
    by (rule int_div_pos_eq[where r = "100 * n100 + 4 * n4 + n1"]) (use n1b n4b n100b y_eq in simp_all)
  have dse: "daysSinceEpoch y = 146097 * n400 + 36524 * n100 + 1461 * n4 + 365 * n1"
    unfolding daysSinceEpoch_def k4 k100 k400 using y_eq by simp
  have part1: "d = daysSinceEpoch y + yd"
    unfolding dse yd_eq using d_eq d2_eq d2_def by simp
  have leap: "isLeap y" if "yd = 365"
  proof -
    from that ydb have n1: "n1 = 3" and d3: "d3 = 1460" by simp_all
    have m4: "y mod 4 = 0"
      by (rule int_mod_pos_eq[where q = "100 * n400 + 25 * n100 + n4 + 1"]) (use y_eq n1 in simp_all)
    show ?thesis
    proof (cases "n4 = 24")
      case False
      then have "n4 \<le> 23" using n4b by simp
      then have "y mod 100 = 4 * n4 + 4"
        by (intro int_mod_pos_eq[where q = "4 * n400 + n100"]) (use y_eq n1 n4b in simp_all)
      then have "y mod 100 \<noteq> 0" using n4b by simp
      with m4 show ?thesis by (simp add: isLeap_def)
    next
      case True
      with d2_eq d3 have "d2 = 36524" by simp
      have "n100 = 3"
      proof (rule ccontr)
        assume "n100 \<noteq> 3"
        then have "n100 = q1" using n100m n100b by (simp add: min_def split: if_splits)
        then show False
          using div_ub[of 36524 d1] \<open>d2 = 36524\<close> unfolding q1_def[symmetric] d2_def by linarith
      qed
      then have "y mod 400 = 0"
        by (intro int_mod_pos_eq[where q = "n400 + 1"]) (use y_eq n1 True in simp_all)
      with m4 show ?thesis by (simp add: isLeap_def)
    qed
  qed
  have "yd < yearLen y"
    using ydb leap by (cases "yd = 365") (simp_all add: yearLen_def)
  with part1 ydb show ?thesis by simp
qed

lemma div_succ:
  fixes k n :: int assumes "0 < n"
  shows "(k + 1) div n = k div n + (if (k + 1) mod n = 0 then 1 else 0)"
proof (cases "k mod n + 1 < n")
  case True
  have e: "k + 1 = n * (k div n) + (k mod n + 1)" by simp
  have "(k + 1) div n = k div n" "(k + 1) mod n = k mod n + 1"
    using int_div_pos_eq[OF e _ True] int_mod_pos_eq[OF e _ True] assms by simp_all
  moreover have "k mod n + 1 \<noteq> 0" using assms pos_mod_sign[of n k] by linarith
  ultimately show ?thesis by simp
next
  case False
  then have r: "k mod n + 1 = n" using pos_mod_bound[of n k] assms by linarith
  have "k + 1 = n * (k div n) + (k mod n + 1)" by simp
  then have e: "k + 1 = n * (k div n + 1) + 0" unfolding r by (simp add: algebra_simps)
  have "(k + 1) div n = k div n + 1" "(k + 1) mod n = 0"
    using int_div_pos_eq[OF e] int_mod_pos_eq[OF e] assms by simp_all
  then show ?thesis by simp
qed

lemma dse_step: "daysSinceEpoch (y + 1) = daysSinceEpoch y + yearLen y"
proof -
  have a: "(4::int) dvd 100" "(100::int) dvd 400" by simp_all
  have m1: "y mod 100 = 0 \<Longrightarrow> y mod 4 = 0" using a(1) by (meson dvd_trans mod_eq_0_iff_dvd)
  have m2: "y mod 400 = 0 \<Longrightarrow> y mod 100 = 0" using a(2) by (meson dvd_trans mod_eq_0_iff_dvd)
  have s4: "y div 4 = (y - 1) div 4 + (if y mod 4 = 0 then 1 else 0)"
    using div_succ[of 4 "y - 1"] by simp
  have s100: "y div 100 = (y - 1) div 100 + (if y mod 100 = 0 then 1 else 0)"
    using div_succ[of 100 "y - 1"] by simp
  have s400: "y div 400 = (y - 1) div 400 + (if y mod 400 = 0 then 1 else 0)"
    using div_succ[of 400 "y - 1"] by simp
  have "daysSinceEpoch (y + 1) = 365 * y + y div 4 - y div 100 + y div 400"
    unfolding daysSinceEpoch_def by simp
  also have "\<dots> = daysSinceEpoch y + yearLen y"
    unfolding s4 s100 s400 daysSinceEpoch_def yearLen_def isLeap_def
    using m1 m2 by (cases "y mod 4 = 0"; cases "y mod 100 = 0"; cases "y mod 400 = 0") simp_all
  finally show ?thesis .
qed

lemma dse_mono: "a < b \<Longrightarrow> daysSinceEpoch a < daysSinceEpoch b"
proof -
  assume ab: "a < b"
  define p4 where "p4 = (a - 1) div 4"
  define q4 where "q4 = (b - 1) div 4"
  define p100 where "p100 = (a - 1) div 100"
  define q100 where "q100 = (b - 1) div 100"
  define p400 where "p400 = (a - 1) div 400"
  define q400 where "q400 = (b - 1) div 400"
  have "4 * p4 \<le> a - 1" "b - 1 < 4 * q4 + 4" "a - 1 < 100 * p100 + 100" "100 * q100 \<le> b - 1"
    "400 * p400 \<le> a - 1" "b - 1 < 400 * q400 + 400"
    unfolding p4_def q4_def p100_def q100_def p400_def q400_def
    by (simp_all add: div_lb div_ub)
  with ab have "p4 \<le> q4" "q100 - p100 \<le> b - a" "p400 \<le> q400"
    by linarith+
  with ab have "365 * a - 365 + p4 - p100 + p400 < 365 * b - 365 + q4 - q100 + q400"
    by linarith
  then have "365 * (a - 1) + p4 - p100 + p400 < 365 * (b - 1) + q4 - q100 + q400"
    by (simp add: right_diff_distrib)
  then show ?thesis
    unfolding daysSinceEpoch_def p4_def q4_def p100_def q100_def p400_def q400_def .
qed

lemma dse_mono_le: "a \<le> b \<Longrightarrow> daysSinceEpoch a \<le> daysSinceEpoch b"
  using dse_mono[of a b] by (cases "a = b") auto

lemma absDate_unique:
  assumes "daysSinceEpoch y \<le> d" "d < daysSinceEpoch y + yearLen y"
  shows "absDate d = (y, d - daysSinceEpoch y)"
proof -
  obtain y' yd where a: "absDate d = (y', yd)" by (cases "absDate d")
  from absDate_char[OF a] have c: "d = daysSinceEpoch y' + yd" "0 \<le> yd" "yd < yearLen y'" by simp_all
  have "\<not> y' < y"
  proof
    assume "y' < y"
    then have "daysSinceEpoch (y' + 1) \<le> daysSinceEpoch y" by (intro dse_mono_le) simp
    with c assms show False by (simp add: dse_step)
  qed
  moreover have "\<not> y < y'"
  proof
    assume "y < y'"
    then have "daysSinceEpoch (y + 1) \<le> daysSinceEpoch y'" by (intro dse_mono_le) simp
    with c assms show False by (simp add: dse_step)
  qed
  ultimately have "y' = y" by simp
  with a c show ?thesis by simp
qed

lemma daysBefore_simps:
  "daysBefore 0 = 0" "daysBefore 1 = 31" "daysBefore 2 = 59" "daysBefore 3 = 90"
  "daysBefore 4 = 120" "daysBefore 5 = 151" "daysBefore 6 = 181" "daysBefore 7 = 212"
  "daysBefore 8 = 243" "daysBefore 9 = 273" "daysBefore 10 = 304" "daysBefore 11 = 334"
  "daysBefore 12 = 365"
  by (simp_all add: daysBefore_def)

lemma month_cases:
  fixes m :: int assumes "1 \<le> m" "m \<le> 12"
  obtains "m = 1" | "m = 2" | "m = 3" | "m = 4" | "m = 5" | "m = 6"
        | "m = 7" | "m = 8" | "m = 9" | "m = 10" | "m = 11" | "m = 12"
proof -
  have "m = 1 \<or> m = 2 \<or> m = 3 \<or> m = 4 \<or> m = 5 \<or> m = 6
      \<or> m = 7 \<or> m = 8 \<or> m = 9 \<or> m = 10 \<or> m = 11 \<or> m = 12"
    using assms by presburger
  then show thesis using that by blast
qed

lemma daysBefore_step: "1 \<le> m \<Longrightarrow> m \<le> 12 \<Longrightarrow> daysBefore (m - 1) + 28 \<le> daysBefore m"
  by (erule (1) month_cases) (simp_all add: daysBefore_simps)

lemma daysBefore_mono_aux: "a \<le> b \<Longrightarrow> 0 \<le> a \<longrightarrow> b \<le> 12 \<longrightarrow> daysBefore a \<le> daysBefore b"
proof (induct b rule: int_ge_induct)
  case base
  show ?case by simp
next
  case (step i)
  show ?case
  proof (intro impI)
    assume "0 \<le> a" "i + 1 \<le> 12"
    with step have "daysBefore a \<le> daysBefore i" by simp
    moreover have "daysBefore (i + 1 - 1) + 28 \<le> daysBefore (i + 1)"
      using step(1) \<open>0 \<le> a\<close> \<open>i + 1 \<le> 12\<close> by (intro daysBefore_step) simp_all
    ultimately show "daysBefore a \<le> daysBefore (i + 1)" by simp
  qed
qed

lemma daysBefore_mono: "0 \<le> a \<Longrightarrow> a \<le> b \<Longrightarrow> b \<le> 12 \<Longrightarrow> daysBefore a \<le> daysBefore b"
  using daysBefore_mono_aux by blast

lemma monthOfDay_spec:
  assumes "0 \<le> day" "day \<le> 364" "monthOfDay day = (m, dd)"
  shows "1 \<le> m \<and> m \<le> 12 \<and> daysBefore (m - 1) \<le> day \<and> day < daysBefore m
         \<and> dd = day - daysBefore (m - 1) + 1"
proof -
  define mi where "mi = day div 31"
  have b: "31 * mi \<le> day" "day < 31 * mi + 31"
    unfolding mi_def by (simp_all add: div_lb div_ub)
  with assms have "0 \<le> mi" "mi \<le> 11" by linarith+
  then have "1 \<le> mi + 1" "mi + 1 \<le> 12" by simp_all
  then have c: "mi = 0 \<or> mi = 1 \<or> mi = 2 \<or> mi = 3 \<or> mi = 4 \<or> mi = 5
      \<or> mi = 6 \<or> mi = 7 \<or> mi = 8 \<or> mi = 9 \<or> mi = 10 \<or> mi = 11"
    by presburger
  have md: "(m, dd) = (if daysBefore (mi + 1) \<le> day then (mi + 2, day - daysBefore (mi + 1) + 1)
                else (mi + 1, day - daysBefore mi + 1))"
    using assms(3) unfolding monthOfDay_def Let_def mi_def by simp
  from c show ?thesis
    using md b assms(1,2)
    by (elim disjE) (simp_all add: daysBefore_simps split: if_splits)
qed

lemma monthOfDay_unique:
  assumes "1 \<le> m" "m \<le> 12" "daysBefore (m - 1) \<le> day" "day < daysBefore m"
  shows "monthOfDay day = (m, day - daysBefore (m - 1) + 1)"
proof -
  have "0 \<le> daysBefore (m - 1)" using daysBefore_mono[of 0 "m - 1"] assms by (simp add: daysBefore_simps)
  moreover have "daysBefore m \<le> 365" using daysBefore_mono[of m 12] assms by (simp add: daysBefore_simps)
  ultimately have d: "0 \<le> day" "day \<le> 364" using assms by linarith+
  obtain m' dd' where e: "monthOfDay day = (m', dd')" by (cases "monthOfDay day")
  from monthOfDay_spec[OF d e] have s: "1 \<le> m'" "m' \<le> 12" "daysBefore (m' - 1) \<le> day"
    "day < daysBefore m'" "dd' = day - daysBefore (m' - 1) + 1" by simp_all
  have "\<not> m' < m"
  proof
    assume "m' < m"
    then have "daysBefore m' \<le> daysBefore (m - 1)" using s assms by (intro daysBefore_mono) simp_all
    with s assms show False by simp
  qed
  moreover have "\<not> m < m'"
  proof
    assume "m < m'"
    then have "daysBefore m \<le> daysBefore (m' - 1)" using s assms by (intro daysBefore_mono) simp_all
    with s assms show False by simp
  qed
  ultimately have "m' = m" by simp
  with e s show ?thesis by simp
qed


lemma Date_valid:
  assumes "1 \<le> m" "m \<le> 12"
  shows "Date y m dd = daysSinceEpoch y + daysBefore (m - 1) + leapAdj y m + (dd - 1)"
proof -
  have "(m - 1) div 12 = 0" "(m - 1) mod 12 = m - 1" using assms by simp_all
  then show ?thesis unfolding Date_def Let_def leapAdj_def by simp
qed

lemma monthDay_spec:
  assumes "0 \<le> yd" "yd < yearLen y" "monthDay y yd = (m, dd)"
  shows "1 \<le> m \<and> m \<le> 12 \<and> 1 \<le> dd \<and> dd \<le> daysIn m y
         \<and> daysBefore (m - 1) + leapAdj y m + (dd - 1) = yd"
proof (cases "isLeap y \<and> yd = 59")
  case True
  with assms(3) have "m = 2" "dd = 29" by (simp_all add: monthDay_def)
  with True show ?thesis by (simp add: daysIn_def leapAdj_def daysBefore_simps)
next
  case False
  define day where "day = (if isLeap y \<and> 59 < yd then yd - 1 else yd)"
  from False assms(3) have md: "monthOfDay day = (m, dd)"
    unfolding monthDay_def day_def by (auto split: if_splits)
  have db: "0 \<le> day" "day \<le> 364"
    using assms(1,2) False unfolding day_def yearLen_def by (auto split: if_splits)
  from monthOfDay_spec[OF db md] have s: "1 \<le> m" "m \<le> 12" "daysBefore (m - 1) \<le> day"
    "day < daysBefore m" "dd = day - daysBefore (m - 1) + 1" by simp_all
  have lo: "m \<le> 2 \<Longrightarrow> day < 59"
    using daysBefore_mono[of m 2] s by (simp add: daysBefore_simps)
  have hi: "3 \<le> m \<Longrightarrow> 59 \<le> day"
    using daysBefore_mono[of 2 "m - 1"] s by (simp add: daysBefore_simps)
  have adj: "day + leapAdj y m = yd"
    using lo hi False unfolding day_def leapAdj_def by (cases "3 \<le> m") (auto split: if_splits)
  have "dd \<le> daysIn m y"
    using s unfolding daysIn_def by (auto simp: daysBefore_simps)
  with s adj show ?thesis by simp
qed

lemma monthDay_unique:
  assumes "1 \<le> m" "m \<le> 12" "1 \<le> dd" "dd \<le> daysIn m y"
  shows "monthDay y (daysBefore (m - 1) + leapAdj y m + (dd - 1)) = (m, dd)"
proof (cases "isLeap y \<and> m = 2 \<and> dd = 29")
  case True
  then show ?thesis by (simp add: monthDay_def leapAdj_def daysBefore_simps)
next
  case False
  define day where "day = daysBefore (m - 1) + (dd - 1)"
  have dd: "dd \<le> daysBefore m - daysBefore (m - 1)"
    using assms(4) False unfolding daysIn_def by (auto simp: daysBefore_simps split: if_splits)
  have r: "daysBefore (m - 1) \<le> day" "day < daysBefore m"
    unfolding day_def using assms(3) dd by simp_all
  have lo: "m \<le> 2 \<Longrightarrow> day < 59"
    using daysBefore_mono[of m 2] r assms by (simp add: daysBefore_simps)
  have hi: "3 \<le> m \<Longrightarrow> 59 \<le> day"
    using daysBefore_mono[of 2 "m - 1"] r assms by (simp add: daysBefore_simps)
  have "monthDay y (day + leapAdj y m) = monthOfDay day"
    using lo hi unfolding monthDay_def leapAdj_def by (cases "3 \<le> m") auto
  also have "\<dots> = (m, day - daysBefore (m - 1) + 1)"
    using assms(1,2) r by (rule monthOfDay_unique)
  finally show ?thesis unfolding day_def by (simp add: algebra_simps)
qed

lemma yday_bound:
  assumes "1 \<le> m" "m \<le> 12" "1 \<le> dd" "dd \<le> daysIn m y"
  shows "0 \<le> daysBefore (m - 1) + leapAdj y m + (dd - 1)"
    and "daysBefore (m - 1) + leapAdj y m + (dd - 1) < yearLen y"
proof -
  have a: "0 \<le> daysBefore (m - 1)" "daysBefore m \<le> 365"
    using daysBefore_mono[of 0 "m - 1"] daysBefore_mono[of m 12] assms by (simp_all add: daysBefore_simps)
  show "0 \<le> daysBefore (m - 1) + leapAdj y m + (dd - 1)"
    using a assms(3) by (simp add: leapAdj_def)
  show "daysBefore (m - 1) + leapAdj y m + (dd - 1) < yearLen y"
    using a assms(4) unfolding daysIn_def leapAdj_def yearLen_def
    by (auto simp: daysBefore_simps split: if_splits)
qed

lemma dateOf_Date:
  assumes "1 \<le> m" "m \<le> 12" "1 \<le> dd" "dd \<le> daysIn m y"
  shows "dateOf (Date y m dd) = (y, m, dd)"
proof -
  let ?yd = "daysBefore (m - 1) + leapAdj y m + (dd - 1)"
  have D: "Date y m dd = daysSinceEpoch y + ?yd"
    using Date_valid[OF assms(1,2)] by simp
  have "absDate (Date y m dd) = (y, Date y m dd - daysSinceEpoch y)"
    using yday_bound[OF assms] unfolding D by (intro absDate_unique) simp_all
  then have "absDate (Date y m dd) = (y, ?yd)" unfolding D by simp
  then show ?thesis
    unfolding dateOf_def using monthDay_unique[OF assms] by simp
qed

lemma Date_dateOf:
  assumes "dateOf t = (y, m, dd)"
  shows "Date y m dd = t" "1 \<le> m" "m \<le> 12" "1 \<le> dd" "dd \<le> daysIn m y"
proof -
  obtain y' yd where a: "absDate t = (y', yd)" by (cases "absDate t")
  obtain m' dd' where b: "monthDay y' yd = (m', dd')" by (cases "monthDay y' yd")
  from assms a b have e: "y' = y" "m' = m" "dd' = dd" by (simp_all add: dateOf_def)
  from absDate_char[OF a] have c: "t = daysSinceEpoch y + yd" "0 \<le> yd" "yd < yearLen y"
    unfolding e by simp_all
  from monthDay_spec[OF c(2,3) b[unfolded e]]
  have s: "1 \<le> m" "m \<le> 12" "1 \<le> dd" "dd \<le> daysIn m y"
    "daysBefore (m - 1) + leapAdj y m + (dd - 1) = yd" by simp_all
  show "Date y m dd = t" using Date_valid[OF s(1,2)] s(5) c(1) by simp
  show "1 \<le> m" "m \<le> 12" "1 \<le> dd" "dd \<le> daysIn m y" by (fact s)+
qed

lemma digit_roundtrip:
  assumes "isDigit c"
  shows "0 \<le> digitVal c" "digitVal c \<le> 9" "digitChar (digitVal c) = c"
proof -
  have b: "(48::nat) \<le> of_char c" "of_char c \<le> (57::nat)" using assms by (simp_all add: isDigit_def)
  have e: "(of_char c :: int) = int (of_char c)" by (simp add: of_nat_of_char)
  show "0 \<le> digitVal c" "digitVal c \<le> 9" unfolding digitVal_def e using b by linarith+
  show "digitChar (digitVal c) = c" unfolding digitChar_def digitVal_def by simp
qed

lemma digitChar_props:
  assumes "0 \<le> n" "n \<le> 9"
  shows "isDigit (digitChar n)" "digitVal (digitChar n) = n"
proof -
  have m: "(48 + n) mod 256 = 48 + n" using assms by simp
  have "(of_char (digitChar n) :: int) = 48 + n" unfolding digitChar_def using m by simp
  then show "digitVal (digitChar n) = n" by (simp add: digitVal_def)
  have "int (of_char (digitChar n)) = 48 + n"
    using \<open>(of_char (digitChar n) :: int) = 48 + n\<close> by (simp add: of_nat_of_char)
  then show "isDigit (digitChar n)" unfolding isDigit_def using assms by linarith
qed

lemma atoi4:
  "atoi [a, b, c, d] = 1000 * digitVal a + 100 * digitVal b + 10 * digitVal c + digitVal d"
  by (simp add: atoi_def)

lemma atoi2: "atoi [a, b] = 10 * digitVal a + digitVal b"
  by (simp add: atoi_def)

lemma div_mod_digits4:
  fixes a b c d :: int
  assumes "0 \<le> a" "a \<le> 9" "0 \<le> b" "b \<le> 9" "0 \<le> c" "c \<le> 9" "0 \<le> d" "d \<le> 9"
  defines "u \<equiv> 1000 * a + 100 * b + 10 * c + d"
  shows "u div 1000 = a" "u div 100 mod 10 = b" "u div 10 mod 10 = c" "u mod 10 = d"
proof -
  show "u div 1000 = a"
    by (rule int_div_pos_eq[where r = "100 * b + 10 * c + d"]) (use assms in simp_all)
  have "u div 100 = 10 * a + b"
    by (rule int_div_pos_eq[where r = "10 * c + d"]) (use assms in simp_all)
  moreover have "(10 * a + b) mod 10 = b"
    by (rule int_mod_pos_eq[where q = a]) (use assms in simp_all)
  ultimately show "u div 100 mod 10 = b" by simp
  have "u div 10 = 10 * (10 * a + b) + c"
    by (rule int_div_pos_eq[where r = "d"]) (use assms in simp_all)
  moreover have "(10 * (10 * a + b) + c) mod 10 = c"
    by (rule int_mod_pos_eq[where q = "10 * a + b"]) (use assms in simp_all)
  ultimately show "u div 10 mod 10 = c" by simp
  show "u mod 10 = d"
    by (rule int_mod_pos_eq[where q = "100 * a + 10 * b + c"]) (use assms in simp_all)
qed

lemma div_mod_digits2:
  fixes a b :: int
  assumes "0 \<le> a" "a \<le> 9" "0 \<le> b" "b \<le> 9"
  shows "(10 * a + b) div 10 = a" "(10 * a + b) mod 10 = b"
proof -
  show "(10 * a + b) div 10 = a"
    by (rule int_div_pos_eq[where r = b]) (use assms in simp_all)
  show "(10 * a + b) mod 10 = b"
    by (rule int_mod_pos_eq[where q = a]) (use assms in simp_all)
qed

lemma appendInt4:
  assumes "0 \<le> u" "u < 10000"
  shows "appendInt u 4 = [digitChar (u div 1000), digitChar (u div 100 mod 10),
                   digitChar (u div 10 mod 10), digitChar (u mod 10)]"
proof -
  have "\<bar>u\<bar> = u" "\<not> u < 0" using assms by simp_all
  then show ?thesis unfolding appendInt_def Let_def using assms(2) by (simp only: if_True if_False append_Nil numeral_eq_iff num.simps refl simp_thms)
qed

lemma appendInt2:
  assumes "0 \<le> u" "u < 100"
  shows "appendInt u 2 = [digitChar (u div 10), digitChar (u mod 10)]"
proof -
  have "\<bar>u\<bar> = u" "\<not> u < 0" using assms by simp_all
  then show ?thesis unfolding appendInt_def Let_def using assms(2) by (simp only: if_True if_False append_Nil refl simp_thms)
qed

lemma appendInt4_atoi:
  assumes "isDigit a" "isDigit b" "isDigit c" "isDigit d"
  shows "appendInt (atoi [a, b, c, d]) 4 = [a, b, c, d]"
proof -
  note r = digit_roundtrip[OF assms(1)] digit_roundtrip[OF assms(2)]
           digit_roundtrip[OF assms(3)] digit_roundtrip[OF assms(4)]
  let ?u = "1000 * digitVal a + 100 * digitVal b + 10 * digitVal c + digitVal d"
  have u: "0 \<le> ?u" "?u < 10000" using r by linarith+
  have dm: "?u div 1000 = digitVal a" "?u div 100 mod 10 = digitVal b"
      "?u div 10 mod 10 = digitVal c" "?u mod 10 = digitVal d"
    using div_mod_digits4[of "digitVal a" "digitVal b" "digitVal c" "digitVal d"] r(1,2,4,5,7,8,10,11)
    by blast+
  show ?thesis
    unfolding atoi4 appendInt4[OF u] dm r ..
qed

lemma appendInt2_atoi:
  assumes "isDigit a" "isDigit b"
  shows "appendInt (atoi [a, b]) 2 = [a, b]"
proof -
  note r = digit_roundtrip[OF assms(1)] digit_roundtrip[OF assms(2)]
  let ?u = "10 * digitVal a + digitVal b"
  have u: "0 \<le> ?u" "?u < 100" using r by linarith+
  have dm: "?u div 10 = digitVal a" "?u mod 10 = digitVal b"
    using div_mod_digits2[of "digitVal a" "digitVal b"] r(1,2,4,5) by blast+
  show ?thesis
    unfolding atoi2 appendInt2[OF u] dm r ..
qed

lemma Parse_Some:
  assumes "Parse_20060102 s = Some t"
  obtains y1 y2 y3 y4 m1 m2 d1 d2 where "s = [y1, y2, y3, y4, m1, m2, d1, d2]"
    "isDigit y1" "isDigit y2" "isDigit y3" "isDigit y4" "isDigit m1" "isDigit m2"
    "isDigit d1" "isDigit d2"
    "1 \<le> atoi [m1, m2]" "atoi [m1, m2] \<le> 12" "1 \<le> atoi [d1, d2]"
    "atoi [d1, d2] \<le> daysIn (atoi [m1, m2]) (atoi [y1, y2, y3, y4])"
    "t = Date (atoi [y1, y2, y3, y4]) (atoi [m1, m2]) (atoi [d1, d2])"
  using assms
  by (cases s rule: Parse_20060102.cases) (auto simp: Let_def split: if_splits)

lemma Format_Parse:
  assumes "Parse_20060102 s = Some t"
  shows "Format_20060102 t = s"
proof -
  from assms obtain y1 y2 y3 y4 m1 m2 d1 d2 where p: "s = [y1, y2, y3, y4, m1, m2, d1, d2]"
    "isDigit y1" "isDigit y2" "isDigit y3" "isDigit y4" "isDigit m1" "isDigit m2"
    "isDigit d1" "isDigit d2"
    "1 \<le> atoi [m1, m2]" "atoi [m1, m2] \<le> 12" "1 \<le> atoi [d1, d2]"
    "atoi [d1, d2] \<le> daysIn (atoi [m1, m2]) (atoi [y1, y2, y3, y4])"
    "t = Date (atoi [y1, y2, y3, y4]) (atoi [m1, m2]) (atoi [d1, d2])"
    by (rule Parse_Some)
  have "dateOf t = (atoi [y1, y2, y3, y4], atoi [m1, m2], atoi [d1, d2])"
    unfolding p(14) using p(10-13) by (rule dateOf_Date)
  then show ?thesis
    unfolding Format_20060102_def p(1)
    using appendInt4_atoi[OF p(2-5)] appendInt2_atoi[OF p(6,7)] appendInt2_atoi[OF p(8,9)]
    by simp
qed

lemma digits4_of:
  fixes u :: int assumes "0 \<le> u" "u < 10000"
  shows "0 \<le> u div 1000" "u div 1000 \<le> 9" "0 \<le> u div 100 mod 10" "u div 100 mod 10 \<le> 9"
    "0 \<le> u div 10 mod 10" "u div 10 mod 10 \<le> 9" "0 \<le> u mod 10" "u mod 10 \<le> 9"
    "1000 * (u div 1000) + 100 * (u div 100 mod 10) + 10 * (u div 10 mod 10) + u mod 10 = u"
proof -
  define q1 where "q1 = u div 10"
  define q2 where "q2 = q1 div 10"
  define q3 where "q3 = q2 div 10"
  have e1: "u = 10 * q1 + u mod 10" unfolding q1_def by simp
  have e2: "q1 = 10 * q2 + q1 mod 10" unfolding q2_def by simp
  have e3: "q2 = 10 * q3 + q2 mod 10" unfolding q3_def by simp
  have h2: "u div 100 = q2" unfolding q2_def q1_def using zdiv_zmult2_eq[of 10 u 10] by simp
  have h3: "u div 1000 = q3" unfolding q3_def q2_def q1_def
    using zdiv_zmult2_eq[of 10 u 10] zdiv_zmult2_eq[of 10 "u div 10" 10] zdiv_zmult2_eq[of 100 u 10] by simp
  have b: "0 \<le> u mod 10" "u mod 10 < 10" "0 \<le> q1 mod 10" "q1 mod 10 < 10" "0 \<le> q2 mod 10" "q2 mod 10 < 10"
    by simp_all
  from e1 e2 e3 b assms have q3b: "0 \<le> q3" "q3 \<le> 9" by linarith+
  show "0 \<le> u div 1000" "u div 1000 \<le> 9" unfolding h3 using q3b by simp_all
  show "0 \<le> u div 100 mod 10" "u div 100 mod 10 \<le> 9" unfolding h2 using b by simp_all
  show "0 \<le> u div 10 mod 10" "u div 10 mod 10 \<le> 9" unfolding q1_def[symmetric] using b by simp_all
  show "0 \<le> u mod 10" "u mod 10 \<le> 9" using b by simp_all
  show "1000 * (u div 1000) + 100 * (u div 100 mod 10) + 10 * (u div 10 mod 10) + u mod 10 = u"
    unfolding h3 h2 q1_def[symmetric] using e1 e2 e3 by linarith
qed

lemma digits2_of:
  fixes u :: int assumes "0 \<le> u" "u < 100"
  shows "0 \<le> u div 10" "u div 10 \<le> 9" "0 \<le> u mod 10" "u mod 10 \<le> 9"
    "10 * (u div 10) + u mod 10 = u"
proof -
  define q1 where "q1 = u div 10"
  have e1: "u = 10 * q1 + u mod 10" unfolding q1_def by simp
  have b: "0 \<le> u mod 10" "u mod 10 < 10" by simp_all
  from e1 b assms have "0 \<le> q1" "q1 \<le> 9" by linarith+
  then show "0 \<le> u div 10" "u div 10 \<le> 9" unfolding q1_def by simp_all
  show "0 \<le> u mod 10" "u mod 10 \<le> 9" using b by simp_all
  show "10 * (u div 10) + u mod 10 = u" by simp
qed

lemma daysIn_le_31: "1 \<le> m \<Longrightarrow> m \<le> 12 \<Longrightarrow> daysIn m y \<le> 31"
  by (erule (1) month_cases) (simp_all add: daysIn_def daysBefore_simps)

lemma Parse_digits:
  assumes "0 \<le> y" "y < 10000" "1 \<le> m" "m \<le> 12" "1 \<le> dd" "dd \<le> daysIn m y"
  shows "Parse_20060102 (appendInt y 4 @ appendInt m 2 @ appendInt dd 2) = Some (Date y m dd)"
proof -
  have mb: "0 \<le> m" "m < 100" using assms by simp_all
  have db: "0 \<le> dd" "dd < 100" using assms daysIn_le_31[of m y] by simp_all
  note y4 = digits4_of[OF assms(1,2)]
  note m2 = digits2_of[OF mb]
  note d2 = digits2_of[OF db]
  define a where "a = digitChar (y div 1000)"
  define b where "b = digitChar (y div 100 mod 10)"
  define c where "c = digitChar (y div 10 mod 10)"
  define d where "d = digitChar (y mod 10)"
  define e where "e = digitChar (m div 10)"
  define f where "f = digitChar (m mod 10)"
  define g where "g = digitChar (dd div 10)"
  define h where "h = digitChar (dd mod 10)"
  have dig: "isDigit a" "isDigit b" "isDigit c" "isDigit d" "isDigit e" "isDigit f" "isDigit g" "isDigit h"
    unfolding a_def b_def c_def d_def e_def f_def g_def h_def
    using y4 m2 d2 by (simp_all only: digitChar_props)
  have ay: "atoi [a, b, c, d] = y"
    unfolding atoi4 a_def b_def c_def d_def
    using y4 by (simp only: digitChar_props)
  have am: "atoi [e, f] = m"
    unfolding atoi2 e_def f_def using m2 by (simp only: digitChar_props)
  have ad: "atoi [g, h] = dd"
    unfolding atoi2 g_def h_def using d2 by (simp only: digitChar_props)
  have s: "appendInt y 4 @ appendInt m 2 @ appendInt dd 2 = [a, b, c, d, e, f, g, h]"
    unfolding appendInt4[OF assms(1,2)] appendInt2[OF mb] appendInt2[OF db]
      a_def b_def c_def d_def e_def f_def g_def h_def by simp
  show ?thesis
    unfolding s using dig ay am ad assms(3-6) by simp
qed

lemma year_range:
  assumes "daysSinceEpoch 0 \<le> t" "t < daysSinceEpoch 10000" "dateOf t = (y, m, dd)"
  shows "0 \<le> y" "y < 10000"
proof -
  obtain y' yd where a: "absDate t = (y', yd)" by (cases "absDate t")
  with assms(3) have "y' = y" by (simp add: dateOf_def split: prod.splits)
  with absDate_char[OF a] have c: "t = daysSinceEpoch y + yd" "0 \<le> yd" "yd < yearLen y" by simp_all
  show "0 \<le> y"
  proof (rule ccontr)
    assume "\<not> 0 \<le> y"
    then have "daysSinceEpoch (y + 1) \<le> daysSinceEpoch 0" by (intro dse_mono_le) simp
    with c assms(1) show False by (simp add: dse_step)
  qed
  show "y < 10000"
  proof (rule ccontr)
    assume "\<not> y < 10000"
    then have "daysSinceEpoch 10000 \<le> daysSinceEpoch y" by (intro dse_mono_le) simp
    with c assms(2) show False by simp
  qed
qed

lemma Parse_Format:
  assumes "daysSinceEpoch 0 \<le> t" "t < daysSinceEpoch 10000"
  shows "Parse_20060102 (Format_20060102 t) = Some t"
proof -
  obtain y m dd where d: "dateOf t = (y, m, dd)" by (cases "dateOf t")
  note r = Date_dateOf[OF d] year_range[OF assms d]
  show ?thesis
    unfolding Format_20060102_def d using Parse_digits[OF r(6,7) r(2-5)] r(1) by simp
qed

lemma Parse_range:
  assumes "Parse_20060102 s = Some t"
  shows "daysSinceEpoch 0 \<le> t" "t < daysSinceEpoch 10000"
proof -
  from assms obtain y1 y2 y3 y4 m1 m2 d1 d2 where p: "s = [y1, y2, y3, y4, m1, m2, d1, d2]"
    "isDigit y1" "isDigit y2" "isDigit y3" "isDigit y4" "isDigit m1" "isDigit m2"
    "isDigit d1" "isDigit d2"
    "1 \<le> atoi [m1, m2]" "atoi [m1, m2] \<le> 12" "1 \<le> atoi [d1, d2]"
    "atoi [d1, d2] \<le> daysIn (atoi [m1, m2]) (atoi [y1, y2, y3, y4])"
    "t = Date (atoi [y1, y2, y3, y4]) (atoi [m1, m2]) (atoi [d1, d2])"
    by (rule Parse_Some)
  define y where "y = atoi [y1, y2, y3, y4]"
  note r = digit_roundtrip[OF p(2)] digit_roundtrip[OF p(3)]
           digit_roundtrip[OF p(4)] digit_roundtrip[OF p(5)]
  have yb: "0 \<le> y" "y + 1 \<le> 10000" unfolding y_def atoi4 using r by linarith+
  have D: "t = daysSinceEpoch y + (daysBefore (atoi [m1, m2] - 1) + leapAdj y (atoi [m1, m2]) + (atoi [d1, d2] - 1))"
    unfolding p(14) y_def using Date_valid[OF p(10,11)] by simp
  note b = yday_bound[OF p(10-13), folded y_def]
  have "daysSinceEpoch 0 \<le> daysSinceEpoch y" using yb by (intro dse_mono_le)
  with D b show "daysSinceEpoch 0 \<le> t" by linarith
  have "daysSinceEpoch (y + 1) \<le> daysSinceEpoch 10000" using yb by (intro dse_mono_le)
  with D b show "t < daysSinceEpoch 10000" by (simp add: dse_step)
qed

lemma Date_day_shift: "Date y m (dd + k) = Date y m dd + k"
  unfolding Date_def Let_def by simp

lemma AddDate_days: "AddDate t 0 0 k = t + k"
proof -
  obtain y m dd where d: "dateOf t = (y, m, dd)" by (cases "dateOf t")
  from Date_dateOf(1)[OF d] show ?thesis
    unfolding AddDate_def d using Date_day_shift[of y m dd k] by simp
qed

lemma Date_month13: "Date y 13 dd = daysSinceEpoch (y + 1) + (dd - 1)"
  unfolding Date_def Let_def by (simp add: daysBefore_simps)

lemma AddDate_month_gt: "t < AddDate t 0 1 0"
proof -
  obtain y m dd where d: "dateOf t = (y, m, dd)" by (cases "dateOf t")
  note r = Date_dateOf[OF d]
  have t: "t = daysSinceEpoch y + daysBefore (m - 1) + leapAdj y m + (dd - 1)"
    using Date_valid[OF r(2,3), of y dd] r(1) by simp
  have A: "AddDate t 0 1 0 = Date y (m + 1) dd" unfolding AddDate_def d by simp
  show ?thesis
  proof (cases "m = 12")
    case True
    have "daysBefore (m - 1) + leapAdj y m < yearLen y"
      unfolding True leapAdj_def yearLen_def by (simp add: daysBefore_simps)
    moreover have "AddDate t 0 1 0 = daysSinceEpoch y + yearLen y + (dd - 1)"
      using A True Date_month13[of y dd] dse_step[of y] by simp
    ultimately show ?thesis using t True by simp
  next
    case False
    then have m: "1 \<le> m + 1" "m + 1 \<le> 12" using r by simp_all
    have "daysBefore (m + 1 - 1 - 1) + 28 \<le> daysBefore (m + 1 - 1)"
      using r(2,3) by (intro daysBefore_step) simp_all
    moreover have "leapAdj y m \<le> leapAdj y (m + 1)" unfolding leapAdj_def by simp
    ultimately show ?thesis
      unfolding A Date_valid[OF m] using t by simp
  qed
qed

lemma Weekday_back:
  "Weekday t = Saturday \<Longrightarrow> Weekday (t + - 1) = Friday"
  "Weekday t = Sunday \<Longrightarrow> Weekday (t + - 2) = Friday"
  unfolding Weekday_def Saturday_def Sunday_def Friday_def by presburger+

lemma ISOWeek_thursday:
  "ISOWeek t = (case absDate (7 * (t div 7) + 3) of (year, yday) \<Rightarrow> (year, yday div 7 + 1))"
proof -
  have "t + (if Thursday - Weekday t = 4 then - 3 else Thursday - Weekday t) = 7 * (t div 7) + 3"
    unfolding Weekday_def Thursday_def by presburger
  then show ?thesis unfolding ISOWeek_def Let_def by simp
qed

lemma absDate_mono:
  assumes "t \<le> t'" "absDate t = (y, yd)" "absDate t' = (y', yd')"
  shows "y < y' \<or> (y = y' \<and> yd \<le> yd')"
proof -
  note c = absDate_char[OF assms(2)] absDate_char[OF assms(3)]
  have "\<not> y' < y"
  proof
    assume "y' < y"
    then have "daysSinceEpoch (y' + 1) \<le> daysSinceEpoch y" by (intro dse_mono_le) simp
    with c assms(1) show False by (simp add: dse_step)
  qed
  with c assms(1) show ?thesis by (cases "y = y'") auto
qed

lemma ISOWeek_convex:
  assumes "t1 \<le> t2" "t2 \<le> t3" "ISOWeek t1 = ISOWeek t3"
  shows "ISOWeek t2 = ISOWeek t1"
proof -
  define h where "h = (\<lambda>t::int. 7 * (t div 7) + 3)"
  obtain y1 d1 where a1: "absDate (h t1) = (y1, d1)" by (cases "absDate (h t1)")
  obtain y2 d2 where a2: "absDate (h t2) = (y2, d2)" by (cases "absDate (h t2)")
  obtain y3 d3 where a3: "absDate (h t3) = (y3, d3)" by (cases "absDate (h t3)")
  have le: "h t1 \<le> h t2" "h t2 \<le> h t3"
    unfolding h_def using assms(1,2) by (simp_all add: zdiv_mono1)
  have hh: "7 * (t div 7) + 3 = h t" for t by (simp add: h_def)
  from assms(3) have e: "y1 = y3" "d1 div 7 = d3 div 7"
    unfolding ISOWeek_thursday hh a1 a3 by simp_all
  from absDate_mono[OF le(1) a1 a2] absDate_mono[OF le(2) a2 a3] e(1)
  have "y2 = y1" "d1 \<le> d2" "d2 \<le> d3" by auto
  moreover from this have "d1 div 7 \<le> d2 div 7" "d2 div 7 \<le> d3 div 7"
    by (simp_all add: zdiv_mono1)
  ultimately show ?thesis
    unfolding ISOWeek_thursday hh a1 a2 using e(2) by simp
qed

subsection \<open>Date strings are ordered as their dates\<close>

lemma digit_less:
  assumes "isDigit a" "isDigit b"
  shows "a < b \<longleftrightarrow> digitVal a < digitVal b"
proof -
  have e: "(of_char c :: int) = int (of_char c)" for c by (simp add: of_nat_of_char)
  show ?thesis unfolding less_char_def digitVal_def e by simp
qed

lemma digit_eq:
  assumes "isDigit a" "isDigit b"
  shows "a = b \<longleftrightarrow> digitVal a = digitVal b"
proof
  assume "a = b"
  then show "digitVal a = digitVal b" by simp
next
  assume e: "digitVal a = digitVal b"
  have "a = digitChar (digitVal a)" by (rule digit_roundtrip(3)[OF assms(1), symmetric])
  also have "\<dots> = digitChar (digitVal b)" by (simp only: e)
  also have "\<dots> = b" by (rule digit_roundtrip(3)[OF assms(2)])
  finally show "a = b" .
qed

lemma atoi_foldl:
  "foldl (\<lambda>x c. x * 10 + digitVal c) a xs
     = a * 10 ^ length xs + foldl (\<lambda>x c. x * 10 + digitVal c) 0 xs"
proof (induction xs arbitrary: a)
  case Nil
  show ?case by simp
next
  case (Cons x xs)
  show ?case
    using Cons.IH[of "a * 10 + digitVal x"] Cons.IH[of "digitVal x"]
    by (simp add: algebra_simps)
qed

lemma atoi_Cons: "atoi (x # xs) = digitVal x * 10 ^ length xs + atoi xs"
  unfolding atoi_def using atoi_foldl[of "digitVal x" xs] by simp

lemma atoi_append: "atoi (xs @ ys) = atoi xs * 10 ^ length ys + atoi ys"
  unfolding atoi_def using atoi_foldl[of "foldl (\<lambda>x c. x * 10 + digitVal c) 0 xs" ys] by simp

lemma atoi_bounds:
  "list_all isDigit xs \<Longrightarrow> 0 \<le> atoi xs \<and> atoi xs < 10 ^ length xs"
proof (induction xs)
  case Nil
  show ?case by (simp add: atoi_def)
next
  case (Cons x xs)
  then have ih: "0 \<le> atoi xs" "atoi xs < 10 ^ length xs" and d: "isDigit x" by simp_all
  note r = digit_roundtrip(1,2)[OF d]
  define p where "p = (10::int) ^ length xs"
  define q where "q = digitVal x * p"
  have "q \<le> 9 * p" unfolding q_def p_def using r by (intro mult_right_mono) simp_all
  moreover have "0 \<le> q" unfolding q_def p_def using r by simp
  ultimately have "0 \<le> q + atoi xs \<and> q + atoi xs < 10 * p"
    using ih unfolding p_def[symmetric] by linarith
  then show ?case unfolding atoi_Cons q_def p_def by simp
qed

lemma atoi_less_iff:
  assumes "length xs = length ys" "list_all isDigit xs" "list_all isDigit ys"
  shows "xs < ys \<longleftrightarrow> atoi xs < atoi ys"
  using assms
proof (induction xs ys rule: list_induct2)
  case Nil
  show ?case by (simp add: atoi_def)
next
  case (Cons x xs y ys)
  then have dx: "isDigit x" and dy: "isDigit y" and ax: "list_all isDigit xs" and ay: "list_all isDigit ys"
    by simp_all
  note bx = atoi_bounds[OF ax] and by' = atoi_bounds[OF ay]
  define p where "p = (10::int) ^ length xs"
  have py: "(10::int) ^ length ys = p" using Cons.hyps by (simp add: p_def)
  have pp: "0 < p" by (simp add: p_def)
  have ih: "xs < ys \<longleftrightarrow> atoi xs < atoi ys" using Cons.IH ax ay by simp
  show ?case
  proof (cases "digitVal x = digitVal y")
    case True
    then have "x = y" using digit_eq[OF dx dy] by simp
    with True ih show ?thesis unfolding atoi_Cons py p_def[symmetric] by simp
  next
    case False
    then have ne: "x \<noteq> y" by auto
    show ?thesis
    proof (cases "digitVal x < digitVal y")
      case True
      then have "digitVal x + 1 \<le> digitVal y" by simp
      then have "(digitVal x + 1) * p \<le> digitVal y * p" using pp by (intro mult_right_mono) simp_all
      then have "digitVal x * p + atoi xs < digitVal y * p + atoi ys"
        using bx by' unfolding py p_def[symmetric] by (simp add: algebra_simps)
      with True show ?thesis unfolding atoi_Cons py p_def[symmetric] using digit_less[OF dx dy] by simp
    next
      case F: False
      with False have "digitVal y + 1 \<le> digitVal x" by simp
      then have "(digitVal y + 1) * p \<le> digitVal x * p" using pp by (intro mult_right_mono) simp_all
      then have "\<not> digitVal x * p + atoi xs < digitVal y * p + atoi ys"
        using bx by' unfolding py p_def[symmetric] by (simp add: algebra_simps)
      with F ne show ?thesis unfolding atoi_Cons py p_def[symmetric] using digit_less[OF dx dy] by simp
    qed
  qed
qed

lemma Parse_atoi:
  assumes "Parse_20060102 s = Some t"
  shows "atoi s = dateNum t" "length s = 8" "list_all isDigit s"
proof -
  from assms obtain y1 y2 y3 y4 m1 m2 d1 d2 where p: "s = [y1, y2, y3, y4, m1, m2, d1, d2]"
    "isDigit y1" "isDigit y2" "isDigit y3" "isDigit y4" "isDigit m1" "isDigit m2"
    "isDigit d1" "isDigit d2"
    "1 \<le> atoi [m1, m2]" "atoi [m1, m2] \<le> 12" "1 \<le> atoi [d1, d2]"
    "atoi [d1, d2] \<le> daysIn (atoi [m1, m2]) (atoi [y1, y2, y3, y4])"
    "t = Date (atoi [y1, y2, y3, y4]) (atoi [m1, m2]) (atoi [d1, d2])"
    by (rule Parse_Some)
  have d: "dateOf t = (atoi [y1, y2, y3, y4], atoi [m1, m2], atoi [d1, d2])"
    unfolding p(14) using p(10-13) by (rule dateOf_Date)
  have "s = [y1, y2, y3, y4] @ [m1, m2] @ [d1, d2]" using p(1) by simp
  then have "atoi s = atoi [y1, y2, y3, y4] * 10 ^ 4 + (atoi [m1, m2] * 10 ^ 2 + atoi [d1, d2])"
    by (simp only: atoi_append[of "[y1, y2, y3, y4]"] atoi_append[of "[m1, m2]"]) simp
  then show "atoi s = dateNum t" unfolding dateNum_def d by simp
  show "length s = 8" using p(1) by simp
  show "list_all isDigit s" using p(1-9) by simp
qed

lemma civil_less:
  assumes "t < t'" "dateOf t = (y, m, dd)" "dateOf t' = (y', m', dd')"
  shows "10000 * y + 100 * m + dd < 10000 * y' + 100 * m' + dd'"
proof -
  note r = Date_dateOf[OF assms(2)] and r' = Date_dateOf[OF assms(3)]
  note b = yday_bound[OF r(2-5)] and b' = yday_bound[OF r'(2-5)]
  have t: "t = daysSinceEpoch y + (daysBefore (m - 1) + leapAdj y m + (dd - 1))"
    using Date_valid[OF r(2,3), of y dd] r(1) by simp
  have t': "t' = daysSinceEpoch y' + (daysBefore (m' - 1) + leapAdj y' m' + (dd' - 1))"
    using Date_valid[OF r'(2,3), of y' dd'] r'(1) by simp
  have d31: "dd \<le> 31" "dd' \<le> 31"
    using r(5) r'(5) daysIn_le_31[OF r(2,3), of y] daysIn_le_31[OF r'(2,3), of y']
    by linarith+
  have "\<not> y' < y"
  proof
    assume "y' < y"
    then have "daysSinceEpoch (y' + 1) \<le> daysSinceEpoch y" by (intro dse_mono_le) simp
    with t t' b b' assms(1) show False by (simp add: dse_step)
  qed
  then consider "y < y'" | "y = y'" by linarith
  then show ?thesis
  proof cases
    case 1
    then show ?thesis using r(2-4) r'(2-4) d31 by linarith
  next
    case 2
    have yd: "daysBefore (m - 1) + leapAdj y m + dd < daysBefore (m' - 1) + leapAdj y m' + dd'"
      using t t' assms(1) unfolding 2 by simp
    have "\<not> m' < m"
    proof
      assume lt: "m' < m"
      then have mono: "daysBefore m' \<le> daysBefore (m - 1)"
        using r r' by (intro daysBefore_mono) simp_all
      have adj: "leapAdj y m' \<le> leapAdj y m" using lt unfolding leapAdj_def by simp
      show False
      proof (cases "m' = 2 \<and> isLeap y")
        case True
        then have "3 \<le> m" using lt by simp
        then have "daysBefore 2 \<le> daysBefore (m - 1)" using r by (intro daysBefore_mono) simp_all
        moreover have "dd' \<le> 29" using r'(5) True unfolding 2[symmetric] daysIn_def by simp
        ultimately show False
          using yd True \<open>3 \<le> m\<close> r(4) unfolding leapAdj_def by (simp add: daysBefore_simps)
      next
        case False
        then have "dd' \<le> daysBefore m' - daysBefore (m' - 1)"
          using r'(5) unfolding 2[symmetric] daysIn_def by (auto split: if_splits)
        with yd mono adj r(4) show False by linarith
      qed
    qed
    then consider "m < m'" | "m = m'" by linarith
    then show ?thesis
    proof cases
      case 1
      then show ?thesis using 2 d31 r(4) r'(4) by linarith
    next
      case m: 2
      with yd have "dd < dd'" by simp
      with 2 m show ?thesis by simp
    qed
  qed
qed

lemma dateNum_mono: "t < t' \<Longrightarrow> dateNum t < dateNum t'"
  unfolding dateNum_def using civil_less[of t t']
  by (cases "dateOf t"; cases "dateOf t'") simp

lemma dateNum_less_iff: "dateNum t < dateNum t' \<longleftrightarrow> t < t'"
proof
  assume a: "dateNum t < dateNum t'"
  show "t < t'"
  proof (rule ccontr)
    assume "\<not> t < t'"
    then consider "t' < t" | "t' = t" by linarith
    then show False using a dateNum_mono[of t' t] by cases simp_all
  qed
qed (rule dateNum_mono)

lemma Parse_less_iff:
  assumes "Parse_20060102 s = Some t" "Parse_20060102 s' = Some t'"
  shows "s < s' \<longleftrightarrow> t < t'"
proof -
  note a = Parse_atoi[OF assms(1)] and a' = Parse_atoi[OF assms(2)]
  have "s < s' \<longleftrightarrow> atoi s < atoi s'"
    using a(2,3) a'(2,3) by (intro atoi_less_iff) simp_all
  then show ?thesis unfolding a(1) a'(1) dateNum_less_iff .
qed

lemma Parse_inj:
  assumes "Parse_20060102 s = Some t" "Parse_20060102 s' = Some t"
  shows "s = s'"
  using Format_Parse[OF assms(1)] Format_Parse[OF assms(2)] by simp

lemma Parse_le_iff:
  assumes "Parse_20060102 s = Some t" "Parse_20060102 s' = Some t'"
  shows "s \<le> s' \<longleftrightarrow> t \<le> t'"
proof -
  have "s = s' \<longleftrightarrow> t = t'" using assms Parse_inj by auto
  with Parse_less_iff[OF assms] show ?thesis by (auto simp: le_less)
qed

lemma Format_less:
  assumes "daysSinceEpoch 0 \<le> t" "t < t'" "t' < daysSinceEpoch 10000"
  shows "Format_20060102 t < Format_20060102 t'"
proof -
  have "Parse_20060102 (Format_20060102 t) = Some t" using assms by (intro Parse_Format) simp_all
  moreover have "Parse_20060102 (Format_20060102 t') = Some t'" using assms by (intro Parse_Format) simp_all
  ultimately show ?thesis using Parse_less_iff assms(2) by blast
qed

section \<open>The Tushare client (\<^verbatim>\<open>internal/service/toshare.go\<close>)\<close>

text \<open>
  A decoded JSON value of a row (\<^verbatim>\<open>interface{}\<close>): \<^verbatim>\<open>nil\<close>, a string, a \<^verbatim>\<open>float64\<close>, an
  \<^verbatim>\<open>int\<close> (which \<^verbatim>\<open>getFloat\<close> also accepts; the JSON decoder never produces one) or
  anything else (a bool, an array, an object). A \<^verbatim>\<open>float64\<close> is only ever carried from
  the row into a record, never computed with, so it is a \<open>real\<close>.
\<close>

datatype jvalue = JNil | JString string | JFloat real | JInt int | JOther

text \<open>
  The two conversions between numbers. \<^verbatim>\<open>float64(v)\<close> of an \<^verbatim>\<open>int\<close> is exact up to
  \<^verbatim>\<open>2^53\<close> and beyond it rounds to the nearest number with 53 significant bits, a tie
  going to the even one. \<^verbatim>\<open>int(x)\<close> of a \<^verbatim>\<open>float64\<close> drops the fraction, rounding towards
  zero; where the result does not fit 64 bits Go leaves it to the platform, and the value
  taken here is the one of amd64, the smallest integer.
\<close>

definition float64 :: "int \<Rightarrow> real" where
  "float64 v =
     (if \<bar>v\<bar> \<le> 2 ^ 53 then of_int v
      else let e = nat (bitlen \<bar>v\<bar> - 53);
               q = \<bar>v\<bar> div 2 ^ e;
               r = \<bar>v\<bar> mod 2 ^ e;
               q' = (if 2 ^ e < 2 * r \<or> (2 * r = 2 ^ e \<and> odd q) then q + 1 else q)
           in of_int (sgn v * q' * 2 ^ e))"

definition toInt :: "real \<Rightarrow> int" where
  "toInt x =
     (let t = (if 0 \<le> x then \<lfloor>x\<rfloor> else \<lceil>x\<rceil>)
      in if - (2 ^ 63) \<le> t \<and> t < 2 ^ 63 then t else - (2 ^ 63))"

record TushareData =
  Fields :: "string list"
  Items :: "jvalue list list"

text \<open>
  \<^verbatim>\<open>StockDailyData\<close> and \<^verbatim>\<open>models.StockDaily\<close> have the same fields but for the type of
  \<^verbatim>\<open>TradeDate\<close> (a string in the client, a \<^verbatim>\<open>time.Time\<close> in the table), and the weekly and
  monthly structures add \<^verbatim>\<open>EndDate\<close> and the adjusted prices to them. One record with the
  date type as parameter, and its extension, stand for all of them; the columns the ORM
  fills in on its own (\<^verbatim>\<open>ID\<close>, \<^verbatim>\<open>CreatedAt\<close>, \<^verbatim>\<open>UpdatedAt\<close>) are left out.
\<close>

record 'd DailyBar =
  TSCode :: string
  TradeDate :: 'd
  Open :: real
  High :: real
  Low :: real
  Close :: real
  PreClose :: real
  Change :: real
  PctChg :: real
  Vol :: real
  Amount :: real

record 'd AdjBar = "'d DailyBar" +
  EndDate :: 'd
  OpenQfq :: real
  HighQfq :: real
  LowQfq :: real
  CloseQfq :: real
  OpenHfq :: real
  HighHfq :: real
  LowHfq :: real
  CloseHfq :: real

type_synonym StockDailyData = "string DailyBar"
type_synonym StockWeeklyData = "string AdjBar"
type_synonym StockMonthlyData = "Time AdjBar"
type_synonym StockDaily = "Time DailyBar"
type_synonym StockWeekly = "Time AdjBar"
type_synonym StockMonthly = "Time AdjBar"

record TradeCal =
  Exchange :: string
  CalDate :: string
  IsOpen :: int
  PreTradeDate :: string

text \<open>
  \<^verbatim>\<open>fieldMap[field] = i\<close> for every column, a later duplicate overwriting an earlier one;
  reading a name the map does not hold gives Go's zero value, the index 0.
\<close>

definition fieldMap :: "string list \<Rightarrow> (string \<rightharpoonup> int)" where
  "fieldMap names =
     foldl (\<lambda>m (i, field). m(field \<mapsto> int i)) Map.empty (enumerate 0 names)"

definition fieldIndex :: "(string \<rightharpoonup> int) \<Rightarrow> string \<Rightarrow> int" where
  "fieldIndex m name = (case m name of Some i \<Rightarrow> i | None \<Rightarrow> 0)"

definition getString :: "jvalue list \<Rightarrow> int \<Rightarrow> string" where
  "getString item index =
     (if index < 0 \<or> int (length item) \<le> index \<or> item ! nat index = JNil then ''''
      else case item ! nat index of JString str \<Rightarrow> str | _ \<Rightarrow> '''')"

definition getFloat :: "jvalue list \<Rightarrow> int \<Rightarrow> real" where
  "getFloat item index =
     (if index < 0 \<or> int (length item) \<le> index \<or> item ! nat index = JNil then 0
      else case item ! nat index of
             JFloat v \<Rightarrow> v
           | JInt v \<Rightarrow> float64 v
           | JString v \<Rightarrow> 0
           | _ \<Rightarrow> 0)"

definition getTime :: "jvalue list \<Rightarrow> int \<Rightarrow> Time" where
  "getTime item index =
     (if index < 0 \<or> int (length item) \<le> index \<or> item ! nat index = JNil then zeroTime
      else case item ! nat index of
             JString str \<Rightarrow> (case Parse_20060102 str of Some t \<Rightarrow> t | None \<Rightarrow> zeroTime)
           | _ \<Rightarrow> zeroTime)"

definition parseDailyData :: "TushareData \<Rightarrow> StockDailyData list" where
  "parseDailyData data =
     (let fm = fieldMap (Fields data) in
      map (\<lambda>item.
        \<lparr> TSCode = getString item (fieldIndex fm ''ts_code''),
          TradeDate = getString item (fieldIndex fm ''trade_date''),
          Open = getFloat item (fieldIndex fm ''open''),
          High = getFloat item (fieldIndex fm ''high''),
          Low = getFloat item (fieldIndex fm ''low''),
          Close = getFloat item (fieldIndex fm ''close''),
          PreClose = getFloat item (fieldIndex fm ''pre_close''),
          Change = getFloat item (fieldIndex fm ''change''),
          PctChg = getFloat item (fieldIndex fm ''pct_chg''),
          Vol = getFloat item (fieldIndex fm ''vol''),
          Amount = getFloat item (fieldIndex fm ''amount'') \<rparr>) (Items data))"

definition parseTradeCal :: "TushareData \<Rightarrow> TradeCal list" where
  "parseTradeCal data =
     (let fm = fieldMap (Fields data) in
      map (\<lambda>item.
        \<lparr> Exchange = getString item (fieldIndex fm ''exchange''),
          CalDate = getString item (fieldIndex fm ''cal_date''),
          IsOpen = toInt (getFloat item (fieldIndex fm ''is_open'')),
          PreTradeDate = getString item (fieldIndex fm ''pretrade_date'') \<rparr>) (Items data))"

definition parseWeeklyData :: "TushareData \<Rightarrow> StockWeeklyData list" where
  "parseWeeklyData data =
     (let fm = fieldMap (Fields data) in
      map (\<lambda>item.
        \<lparr> TSCode = getString item (fieldIndex fm ''ts_code''),
          TradeDate = getString item (fieldIndex fm ''trade_date''),
          Open = getFloat item (fieldIndex fm ''open''),
          High = getFloat item (fieldIndex fm ''high''),
          Low = getFloat item (fieldIndex fm ''low''),
          Close = getFloat item (fieldIndex fm ''close''),
          PreClose = getFloat item (fieldIndex fm ''pre_close''),
          Change = getFloat item (fieldIndex fm ''change''),
          PctChg = getFloat item (fieldIndex fm ''pct_chg''),
          Vol = getFloat item (fieldIndex fm ''vol''),
          Amount = getFloat item (fieldIndex fm ''amount''),
          EndDate = getString item (fieldIndex fm ''end_date''),
          OpenQfq = getFloat item (fieldIndex fm ''open_qfq''),
          HighQfq = getFloat item (fieldIndex fm ''high_qfq''),
          LowQfq = getFloat item (fieldIndex fm ''low_qfq''),
          CloseQfq = getFloat item (fieldIndex fm ''close_qfq''),
          OpenHfq = getFloat item (fieldIndex fm ''open_hfq''),
          HighHfq = getFloat item (fieldIndex fm ''high_hfq''),
          LowHfq = getFloat item (fieldIndex fm ''low_hfq''),
          CloseHfq = getFloat item (fieldIndex fm ''close_hfq'') \<rparr>) (Items data))"

definition parseMonthlyData :: "TushareData \<Rightarrow> StockMonthlyData list" where
  "parseMonthlyData data =
     (let fm = fieldMap (Fields data) in
      map (\<lambda>item.
        \<lparr> TSCode = getString item (fieldIndex fm ''ts_code''),
          TradeDate = getTime item (fieldIndex fm ''trade_date''),
          Open = getFloat item (fieldIndex fm ''open''),
          High = getFloat item (fieldIndex fm ''high''),
          Low = getFloat item (fieldIndex fm ''low''),
          Close = getFloat item (fieldIndex fm ''close''),
          PreClose = getFloat item (fieldIndex fm ''pre_close''),
          Change = getFloat item (fieldIndex fm ''change''),
          PctChg = getFloat item (fieldIndex fm ''pct_chg''),
          Vol = getFloat item (fieldIndex fm ''vol''),
          Amount = getFloat item (fieldIndex fm ''amount''),
          EndDate = getTime item (fieldIndex fm ''end_date''),
          OpenQfq = getFloat item (fieldIndex fm ''open_qfq''),
          HighQfq = getFloat item (fieldIndex fm ''high_qfq''),
          LowQfq = getFloat item (fieldIndex fm ''low_qfq''),
          CloseQfq = getFloat item (fieldIndex fm ''close_qfq''),
          OpenHfq = getFloat item (fieldIndex fm ''open_hfq''),
          HighHfq = getFloat item (fieldIndex fm ''high_hfq''),
          LowHfq = getFloat item (fieldIndex fm ''low_hfq''),
          CloseHfq = getFloat item (fieldIndex fm ''close_hfq'') \<rparr>) (Items data))"

subsection \<open>Requests and the retry loop\<close>

record TushareClient =
  token :: string
  baseURL :: string
  timeout :: int
  retry :: int

record TushareRequest =
  APIName :: string
  Token :: string
  Params :: "(string \<times> jvalue) list"
  FieldsFilter :: string

text \<open>The response; \<open>Data\<close> is what \<^verbatim>\<open>json.Unmarshal(resp.Data, &data)\<close> makes of the raw
  payload, \<open>None\<close> when it does not decode.\<close>

record TushareResponse =
  Code :: int
  Msg :: string
  Data :: "TushareData option"

text \<open>
  The errors of the client: an error of \<^verbatim>\<open>doRequest\<close> (building, sending, reading or
  decoding the HTTP exchange), the provider's own message under a non-zero code and a payload
  that does not decode; and of the fetcher: the task row that cannot be created and the
  batch that cannot be inserted. The remaining values are not errors the Go code returns
  but the ways it stops without returning: the panic of reading \<^verbatim>\<open>resp.Code\<close> through a
  nil \<^verbatim>\<open>resp\<close> (a negative retry bound), of an integer division by zero, of a slice
  expression whose end precedes its start (a negative batch size), and the loop that never
  advances (a batch size of 0).
\<close>

datatype error =
    TransportError string
  | APIError string
  | DecodeError
  | CreateTaskError
  | InsertError
  | NilPointerPanic
  | DivideByZeroPanic
  | SliceBoundsPanic
  | NeverReturns

text \<open>
  The network is a function from the request and the number of exchanges made before it to
  the outcome of \<^verbatim>\<open>doRequest\<close>. The state counts the exchanges made and logs the seconds
  slept between attempts.
\<close>

type_synonym provider = "TushareRequest \<Rightarrow> nat \<Rightarrow> string + TushareResponse"

record net =
  calls :: nat
  slept :: "int list"

definition doRequest :: "provider \<Rightarrow> TushareRequest \<Rightarrow> net \<Rightarrow> (string + TushareResponse) \<times> net" where
  "doRequest prov req s = (prov req (calls s), s\<lparr>calls := calls s + 1\<rparr>)"

definition succeeded :: "string + TushareResponse \<Rightarrow> bool" where
  "succeeded r = (case r of Inl lastErr \<Rightarrow> False | Inr resp \<Rightarrow> Code resp = 0)"

text \<open>
  The loop \<^verbatim>\<open>for i := 0; i <= c.retry; i++\<close>. \<open>latest\<close> holds \<^verbatim>\<open>resp, lastErr\<close> of the latest
  attempt, \<open>None\<close> while both are still nil.
\<close>

function retryLoop ::
  "provider \<Rightarrow> TushareRequest \<Rightarrow> int \<Rightarrow> int \<Rightarrow> (string + TushareResponse) option \<Rightarrow> net
   \<Rightarrow> (string + TushareResponse) option \<times> net" where
  "retryLoop prov req retries i latest s =
     (if i \<le> retries then
        (case doRequest prov req s of (r, s1) \<Rightarrow>
           if succeeded r then (Some r, s1)
           else retryLoop prov req retries (i + 1) (Some r)
                  (if i < retries then s1\<lparr>slept := slept s1 @ [i + 1]\<rparr> else s1))
      else (latest, s))"
  by pat_completeness auto
termination
  by (relation "measure (\<lambda>(prov, req, retries, i, latest, s). nat (retries + 1 - i))") auto

declare retryLoop.simps [simp del]

definition request ::
  "TushareClient \<Rightarrow> provider \<Rightarrow> string \<Rightarrow> (string \<times> jvalue) list \<Rightarrow> string \<Rightarrow> net
   \<Rightarrow> (error + TushareData) \<times> net" where
  "request c prov apiName params fieldsFilter s =
     (let reqData = \<lparr> APIName = apiName, Token = token c, Params = params,
                       FieldsFilter = fieldsFilter \<rparr>
      in case retryLoop prov reqData (retry c) 0 None s of (latest, s') \<Rightarrow>
           (case latest of
              None \<Rightarrow> (Inl NilPointerPanic, s')
            | Some (Inl lastErr) \<Rightarrow> (Inl (TransportError lastErr), s')
            | Some (Inr resp) \<Rightarrow>
                if Code resp \<noteq> 0 then (Inl (APIError (Msg resp)), s')
                else (case Data resp of
                        None \<Rightarrow> (Inl DecodeError, s')
                      | Some data \<Rightarrow> (Inr data, s'))))"

definition GetDailyData ::
  "TushareClient \<Rightarrow> provider \<Rightarrow> string \<Rightarrow> string \<Rightarrow> net \<Rightarrow> (error + StockDailyData list) \<times> net" where
  "GetDailyData c prov tradeDate tsCode s =
     (let params = (if tradeDate \<noteq> '''' then [(''trade_date'', JString tradeDate)] else [])
                 @ (if tsCode \<noteq> '''' then [(''ts_code'', JString tsCode)] else [])
      in case request c prov ''daily'' params '''' s of
           (Inl err, s') \<Rightarrow> (Inl err, s')
         | (Inr data, s') \<Rightarrow> (Inr (parseDailyData data), s'))"

definition GetTradeCal ::
  "TushareClient \<Rightarrow> provider \<Rightarrow> string \<Rightarrow> string \<Rightarrow> int \<Rightarrow> net \<Rightarrow> (error + TradeCal list) \<times> net" where
  "GetTradeCal c prov startDate endDate isOpen s =
     (let params = [(''exchange'', JString ''SSE'')]
                 @ (if startDate \<noteq> '''' then [(''start_date'', JString startDate)] else [])
                 @ (if endDate \<noteq> '''' then [(''end_date'', JString endDate)] else [])
                 @ (if 0 < isOpen then [(''is_open'', JInt isOpen)] else [])
      in case request c prov ''trade_cal'' params '''' s of
           (Inl err, s') \<Rightarrow> (Inl err, s')
         | (Inr data, s') \<Rightarrow> (Inr (parseTradeCal data), s'))"

definition GetWeeklyData ::
  "TushareClient \<Rightarrow> provider \<Rightarrow> string \<Rightarrow> net \<Rightarrow> (error + StockWeeklyData list) \<times> net" where
  "GetWeeklyData c prov tradeDate s =
     (let params = [(''freq'', JString ''week'')]
                 @ (if tradeDate \<noteq> '''' then [(''trade_date'', JString tradeDate)] else [])
      in case request c prov ''stk_week_month_adj'' params '''' s of
           (Inl err, s') \<Rightarrow> (Inl err, s')
         | (Inr data, s') \<Rightarrow> (Inr (parseWeeklyData data), s'))"

definition GetMonthlyData ::
  "TushareClient \<Rightarrow> provider \<Rightarrow> string \<Rightarrow> string \<Rightarrow> net \<Rightarrow> (error + StockMonthlyData list) \<times> net" where
  "GetMonthlyData c prov tradeDate tsCode s =
     (let params = [(''freq'', JString ''month'')]
                 @ (if tradeDate \<noteq> '''' then [(''trade_date'', JString tradeDate)] else [])
                 @ (if tsCode \<noteq> '''' then [(''ts_code'', JString tsCode)] else [])
      in case request c prov ''stk_week_month_adj'' params '''' s of
           (Inl err, s') \<Rightarrow> (Inl err, s')
         | (Inr data, s') \<Rightarrow> (Inr (parseMonthlyData data), s'))"

subsection \<open>What a call surfaces, and the scenarios of the client's tests\<close>

text \<open>
  \<open>surfaced\<close> is the error a failed attempt leaves behind, \<open>decoded\<close> what a successful one
  returns, and \<open>backoff k\<close> the pauses \<open>1, 2, \<dots>, k\<close> in seconds. \<open>mockData\<close>, \<open>failsTwice\<close> and
  \<open>testClient\<close> are the row, the server (two failures, then a success) and the configuration of
  \<^verbatim>\<open>TestGetDailyData_RetryMechanism\<close>; \<open>alwaysDown\<close> is a server that never answers.
\<close>

definition surfaced :: "string + TushareResponse \<Rightarrow> error" where
  "surfaced r = (case r of Inl lastErr \<Rightarrow> TransportError lastErr | Inr resp \<Rightarrow> APIError (Msg resp))"

definition backoff :: "nat \<Rightarrow> int list" where
  "backoff k = map (\<lambda>j. int j + 1) [0..<k]"


definition decoded :: "string + TushareResponse \<Rightarrow> error + TushareData" where
  "decoded r = (case r of
      Inl lastErr \<Rightarrow> Inl (TransportError lastErr)
    | Inr resp \<Rightarrow> (case Data resp of None \<Rightarrow> Inl DecodeError | Some data \<Rightarrow> Inr data))"

definition mockData :: TushareData where
  "mockData = \<lparr> Fields = [''ts_code'', ''trade_date'', ''open'', ''high'', ''low'', ''close'',
                          ''pre_close'', ''change'', ''pct_chg'', ''vol'', ''amount''],
      Items = [[JString ''000001.SZ'', JString ''20231201'', JFloat 10.5, JFloat 11.0, JFloat 10.2,
                JFloat 10.8, JFloat 10.6, JFloat 0.2, JFloat 1.89, JFloat 123456.78,
                JFloat 1234567.89]] \<rparr>"

definition failsTwice :: provider where
  "failsTwice req n =
     (if n < 2 then Inl ''500'' else Inr \<lparr> Code = 0, Msg = ''success'', Data = Some mockData \<rparr>)"

definition alwaysDown :: provider where
  "alwaysDown req n = Inl ''connection refused''"

definition testClient :: "int \<Rightarrow> TushareClient" where
  "testClient n = \<lparr> token = ''test_token'', baseURL = ''http://127.0.0.1'', timeout = 30, retry = n \<rparr>"


subsection \<open>Facts about the retry loop and the field accessors\<close>

lemma retryLoop_failures:
  assumes "\<forall>j<n. \<not> succeeded (prov req (calls s + j))" "i + int n \<le> retries + 1"
  shows "retryLoop prov req retries i latest s =
         retryLoop prov req retries (i + int n)
           (if n = 0 then latest else Some (prov req (calls s + n - 1)))
           (s\<lparr>calls := calls s + n,
              slept := slept s @ filter (\<lambda>x. x \<le> retries) (map (\<lambda>j. i + int j + 1) [0..<n])\<rparr>)"
  using assms
proof (induction n arbitrary: i latest s)
  case 0
  then show ?case by simp
next
  case (Suc n)
  let ?r = "prov req (calls s)"
  let ?s1 = "(if i < retries then s\<lparr>calls := calls s + 1, slept := slept s @ [i + 1]\<rparr>
              else s\<lparr>calls := calls s + 1\<rparr>)"
  have f0: "\<not> succeeded ?r" using Suc.prems(1) by (metis add.right_neutral zero_less_Suc)
  have le: "i \<le> retries" using Suc.prems(2) by simp
  have step: "retryLoop prov req retries i latest s = retryLoop prov req retries (i + 1) (Some ?r) ?s1"
    by (subst retryLoop.simps) (use f0 le in \<open>simp add: doRequest_def\<close>)
  have c1: "calls ?s1 = calls s + 1" by simp
  have pre: "\<forall>j<n. \<not> succeeded (prov req (calls ?s1 + j))"
    using Suc.prems(1) unfolding c1 by (metis Suc_less_eq add_Suc_shift plus_1_eq_Suc add.commute)
  have pre2: "i + 1 + int n \<le> retries + 1" using Suc.prems(2) by simp
  have m: "map (\<lambda>j. i + int j + 1) [0..<Suc n] = (i + 1) # map (\<lambda>j. i + 1 + int j + 1) [0..<n]"
    by (simp add: upt_rec[of 0 "Suc n"] map_Suc_upt[symmetric] del: upt_Suc) 
  have l: "(if n = 0 then Some ?r else Some (prov req (calls ?s1 + n - 1)))
        = Some (prov req (calls s + Suc n - 1))"
    by (cases n) simp_all
  show ?case
    unfolding step Suc.IH[OF pre pre2] l m
    by (cases "i < retries") (simp_all add: algebra_simps)
qed

lemma retryLoop_success:
  assumes "\<forall>j<k. \<not> succeeded (prov req (calls s + j))" "succeeded (prov req (calls s + k))"
    "int k \<le> retries"
  shows "retryLoop prov req retries 0 None s =
         (Some (prov req (calls s + k)), s\<lparr>calls := calls s + k + 1, slept := slept s @ backoff k\<rparr>)"
proof -
  have f: "filter (\<lambda>x. x \<le> retries) (map (\<lambda>j. 0 + int j + 1) [0..<k]) = backoff k"
    unfolding backoff_def using assms(3) by (auto intro!: filter_True)
  have "retryLoop prov req retries 0 None s =
        retryLoop prov req retries (int k) (if k = 0 then None else Some (prov req (calls s + k - 1)))
          (s\<lparr>calls := calls s + k, slept := slept s @ backoff k\<rparr>)"
    using retryLoop_failures[where n = k and i = 0 and latest = None and retries = retries
        and s = s and prov = prov and req = req] assms(1,3) unfolding f by simp
  also have "\<dots> = (Some (prov req (calls s + k)), s\<lparr>calls := calls s + k + 1, slept := slept s @ backoff k\<rparr>)"
    by (subst retryLoop.simps) (use assms(2,3) in \<open>simp add: doRequest_def\<close>)
  finally show ?thesis .
qed

lemma retryLoop_exhausted:
  assumes "\<forall>j\<le>nat retries. \<not> succeeded (prov req (calls s + j))" "0 \<le> retries"
  shows "retryLoop prov req retries 0 None s =
         (Some (prov req (calls s + nat retries)),
          s\<lparr>calls := calls s + nat retries + 1, slept := slept s @ backoff (nat retries)\<rparr>)"
proof -
  let ?n = "Suc (nat retries)"
  have a: "\<forall>j<?n. \<not> succeeded (prov req (calls s + j))" using assms(1) by (simp add: less_Suc_eq_le)
  have b: "0 + int ?n \<le> retries + 1" using assms(2) by simp
  have f: "filter (\<lambda>x. x \<le> retries) (map (\<lambda>j. 0 + int j + 1) [0..<?n]) = backoff (nat retries)"
    unfolding backoff_def using assms(2) by (auto intro!: filter_True)
  have "retryLoop prov req retries 0 None s =
        retryLoop prov req retries (int ?n) (Some (prov req (calls s + nat retries)))
          (s\<lparr>calls := calls s + ?n, slept := slept s @ backoff (nat retries)\<rparr>)"
    using retryLoop_failures[where n = "?n" and i = 0 and latest = None and retries = retries
        and s = s and prov = prov and req = req] a b assms(2) unfolding f by simp
  also have "\<dots> = (Some (prov req (calls s + nat retries)),
          s\<lparr>calls := calls s + nat retries + 1, slept := slept s @ backoff (nat retries)\<rparr>)"
    by (subst retryLoop.simps) (use assms(2) in simp)
  finally show ?thesis .
qed

lemma request_success:
  assumes "\<forall>j<k. \<not> succeeded (prov \<lparr> APIName = apiName, Token = token c, Params = params,
                       FieldsFilter = ff \<rparr> (calls s + j))"
    "succeeded (prov \<lparr> APIName = apiName, Token = token c, Params = params,
                       FieldsFilter = ff \<rparr> (calls s + k))" "int k \<le> retry c"
  shows "request c prov apiName params ff s =
     (decoded (prov \<lparr> APIName = apiName, Token = token c, Params = params,
                       FieldsFilter = ff \<rparr> (calls s + k)),
      s\<lparr>calls := calls s + k + 1, slept := slept s @ backoff k\<rparr>)"
  unfolding request_def Let_def
    retryLoop_success[where prov = prov and s = s and k = k and retries = "retry c"
      and req = "\<lparr> APIName = apiName, Token = token c, Params = params, FieldsFilter = ff \<rparr>",
      OF assms]
  using assms(2) by (auto simp: succeeded_def decoded_def split: sum.splits option.splits)

lemma request_exhausted:
  assumes "\<forall>j\<le>nat (retry c). \<not> succeeded (prov \<lparr> APIName = apiName, Token = token c, Params = params,
                       FieldsFilter = ff \<rparr> (calls s + j))" "0 \<le> retry c"
  shows "request c prov apiName params ff s =
     (Inl (surfaced (prov \<lparr> APIName = apiName, Token = token c, Params = params,
                       FieldsFilter = ff \<rparr> (calls s + nat (retry c)))),
      s\<lparr>calls := calls s + nat (retry c) + 1, slept := slept s @ backoff (nat (retry c))\<rparr>)"
proof -
  have "\<not> succeeded (prov \<lparr> APIName = apiName, Token = token c, Params = params,
                       FieldsFilter = ff \<rparr> (calls s + nat (retry c)))"
    using assms(1) by simp
  then show ?thesis
    unfolding request_def Let_def
      retryLoop_exhausted[where prov = prov and s = s and retries = "retry c"
        and req = "\<lparr> APIName = apiName, Token = token c, Params = params, FieldsFilter = ff \<rparr>",
        OF assms]
    by (auto simp: succeeded_def surfaced_def split: sum.splits option.splits)
qed

lemma backoff_2: "backoff 2 = [1, 2]" "backoff 1 = [1]" "backoff 3 = [1, 2, 3]"
  by (simp_all add: backoff_def upt_rec)

lemma scenario_retry:
  "GetDailyData (testClient 3) failsTwice ''20231201'' '''' \<lparr>calls = 0, slept = []\<rparr> =
     (Inr (parseDailyData mockData), \<lparr>calls = 3, slept = [1, 2]\<rparr>)"
proof -
  let ?req = "\<lparr> APIName = ''daily'', Token = token (testClient 3),
      Params = [(''trade_date'', JString ''20231201'')], FieldsFilter = '''' \<rparr>"
  have "request (testClient 3) failsTwice ''daily'' [(''trade_date'', JString ''20231201'')] ''''
          \<lparr>calls = 0, slept = []\<rparr>
        = (decoded (failsTwice ?req (calls \<lparr>calls = 0, slept = []\<rparr> + 2)),
           \<lparr>calls = 0, slept = []\<rparr>\<lparr>calls := calls \<lparr>calls = 0, slept = []\<rparr> + 2 + 1,
              slept := slept \<lparr>calls = 0, slept = []\<rparr> @ backoff 2\<rparr>)"
    by (rule request_success) (simp_all add: failsTwice_def succeeded_def testClient_def)
  then show ?thesis
    by (simp add: GetDailyData_def decoded_def failsTwice_def backoff_2)
qed


lemma getString_zero:
  "index < 0 \<or> int (length item) \<le> index \<Longrightarrow> getString item index = ''''"
  "\<forall>str. item ! nat index \<noteq> JString str \<Longrightarrow> getString item index = ''''"
  by (auto simp: getString_def split: jvalue.splits)

lemma getFloat_zero:
  "index < 0 \<or> int (length item) \<le> index \<Longrightarrow> getFloat item index = 0"
  "\<forall>v w. item ! nat index \<noteq> JFloat v \<and> item ! nat index \<noteq> JInt w \<Longrightarrow> getFloat item index = 0"
  by (auto simp: getFloat_def split: jvalue.splits)

lemma parseDailyData_null_open:
  "parseDailyData \<lparr> Fields = [''ts_code'', ''trade_date'', ''open'', ''high'', ''low'', ''close'',
                          ''pre_close'', ''change'', ''pct_chg'', ''vol'', ''amount''],
      Items = [[JString ''000001.SZ'', JString ''20231201'', JNil, JFloat 11.0, JFloat 10.2,
                JFloat 10.8, JFloat 10.6, JFloat 0.2, JFloat 1.89, JFloat 123456.78,
                JFloat 1234567.89]] \<rparr> =
     [\<lparr> TSCode = ''000001.SZ'', TradeDate = ''20231201'', Open = 0, High = 11.0, Low = 10.2,
        Close = 10.8, PreClose = 10.6, Change = 0.2, PctChg = 1.89, Vol = 123456.78,
        Amount = 1234567.89 \<rparr>]"
  by (simp add: parseDailyData_def fieldMap_def fieldIndex_def getString_def getFloat_def)

section \<open>The data fetcher (\<^verbatim>\<open>internal/service/data_fetcher.go\<close>)\<close>

record FetcherConfig =
  Concurrency :: int
  BatchSize :: int
  RateLimit :: int

record DataFetcher =
  tushareClient :: TushareClient
  config :: FetcherConfig

subsection \<open>Resolving the dates to fetch\<close>

text \<open>
  \<^verbatim>\<open>getTradeDates\<close>: the calendar dates marked open, sorted as strings. The error of the
  call is wrapped by the source; the wrapping keeps the cause and is left out.
\<close>

definition getTradeDates ::
  "DataFetcher \<Rightarrow> provider \<Rightarrow> string \<Rightarrow> string \<Rightarrow> net \<Rightarrow> (error + string list) \<times> net" where
  "getTradeDates f prov startDate endDate s =
     (case GetTradeCal (tushareClient f) prov startDate endDate 1 s of
        (Inl err, s') \<Rightarrow> (Inl err, s')
      | (Inr calData, s') \<Rightarrow>
          (Inr (sort (map CalDate (filter (\<lambda>cal. IsOpen cal = 1) calData))), s'))"

text \<open>The loop \<^verbatim>\<open>for d := start; !d.After(end); d = d.AddDate(0, 0, 1)\<close> of the two
  weekend-filtering fallbacks.\<close>

function weekdayLoop :: "Time \<Rightarrow> Time \<Rightarrow> string list \<Rightarrow> string list" where
  "weekdayLoop d end dates =
     (if \<not> After d end then
        weekdayLoop (AddDate d 0 0 1) end
          (if Weekday d \<noteq> Saturday \<and> Weekday d \<noteq> Sunday then dates @ [Format_20060102 d]
           else dates)
      else dates)"
  by pat_completeness auto
termination
  by (relation "measure (\<lambda>(d, end, dates). nat (end + 1 - d))")
     (auto simp: After_def AddDate_days)

declare weekdayLoop.simps [simp del]

definition generateDateRangeFallback :: "string \<Rightarrow> string \<Rightarrow> string list" where
  "generateDateRangeFallback startDate endDate =
     weekdayLoop (parseIgnoringError startDate) (parseIgnoringError endDate) []"

definition generateDateRange ::
  "DataFetcher \<Rightarrow> provider \<Rightarrow> string \<Rightarrow> string \<Rightarrow> net \<Rightarrow> string list \<times> net" where
  "generateDateRange f prov startDate endDate s =
     (case getTradeDates f prov startDate endDate s of
        (Inl err, s') \<Rightarrow> (generateDateRangeFallback startDate endDate, s')
      | (Inr tradeDates, s') \<Rightarrow> (tradeDates, s'))"

definition generateWeekDateRangeFallback :: "string \<Rightarrow> string \<Rightarrow> string list" where
  "generateWeekDateRangeFallback startDate endDate =
     weekdayLoop (parseIgnoringError startDate) (parseIgnoringError endDate) []"

text \<open>
  The grouping loop of \<^verbatim>\<open>generateWeekDateRange\<close>: \<open>cur\<close> is
  \<^verbatim>\<open>(currentWeekYear, currentWeekNum)\<close>; after the loop the last date of the last week is
  appended.
\<close>

fun weekLoop :: "Time list \<Rightarrow> int \<times> int \<Rightarrow> Time \<Rightarrow> string list \<Rightarrow> string list" where
  "weekLoop [] cur lastDateOfWeek weekEndDates =
     weekEndDates @ [Format_20060102 lastDateOfWeek]"
| "weekLoop (date # dates) cur lastDateOfWeek weekEndDates =
     (if ISOWeek date \<noteq> cur
      then weekLoop dates (ISOWeek date) date (weekEndDates @ [Format_20060102 lastDateOfWeek])
      else weekLoop dates cur date weekEndDates)"

definition generateWeekDateRange ::
  "DataFetcher \<Rightarrow> provider \<Rightarrow> string \<Rightarrow> string \<Rightarrow> net \<Rightarrow> string list \<times> net" where
  "generateWeekDateRange f prov startDate endDate s =
     (case getTradeDates f prov startDate endDate s of
        (Inl err, s') \<Rightarrow> (generateWeekDateRangeFallback startDate endDate, s')
      | (Inr allTradeDates, s') \<Rightarrow>
          if allTradeDates = [] then ([], s')
          else let dates = List.map_filter Parse_20060102 allTradeDates
               in if dates = [] then ([], s')
                  else (weekLoop dates (ISOWeek (hd dates)) (hd dates) [], s'))"

text \<open>\<^verbatim>\<open>monthlyLastTrade\<close>: for every \<^verbatim>\<open>YYYYMM\<close> prefix of an open calendar date, the
  greatest such date as a string.\<close>

definition monthlyLastTrade :: "TradeCal list \<Rightarrow> (string \<rightharpoonup> string)" where
  "monthlyLastTrade tradeCals =
     foldl (\<lambda>m cal.
        if IsOpen cal = 1 \<and> 6 \<le> length (CalDate cal) then
          (let yearMonth = take 6 (CalDate cal) in
           case m yearMonth of
             None \<Rightarrow> m(yearMonth \<mapsto> CalDate cal)
           | Some existing \<Rightarrow> if existing < CalDate cal then m(yearMonth \<mapsto> CalDate cal) else m)
        else m) Map.empty tradeCals"

function monthLoop :: "(string \<rightharpoonup> string) \<Rightarrow> Time \<Rightarrow> Time \<Rightarrow> string list \<Rightarrow> string list" where
  "monthLoop m current end dates =
     (if \<not> After current end then
        monthLoop m (AddDate current 0 1 0) end
          (case m (Format_200601 current) of
             Some lastTradeDate \<Rightarrow> dates @ [lastTradeDate]
           | None \<Rightarrow> dates)
      else dates)"
  by pat_completeness auto
termination
proof (relation "measure (\<lambda>(m, current, end, dates). nat (end + 1 - current))", goal_cases)
  case 1
  show ?case by simp
next
  case (2 m current "end" dates)
  then show ?case using AddDate_month_gt[of current] by (simp add: After_def)
qed

declare monthLoop.simps [simp del]

function monthEndLoop :: "Time \<Rightarrow> Time \<Rightarrow> Time \<Rightarrow> string list \<Rightarrow> string list" where
  "monthEndLoop start current end dates =
     (if \<not> After current end then
        (let monthEnd0 = AddDate current 0 1 (- 1);
             monthEnd1 = (if After monthEnd0 end then end else monthEnd0);
             monthEnd = (if Weekday monthEnd1 = Saturday then AddDate monthEnd1 0 0 (- 1)
                         else if Weekday monthEnd1 = Sunday then AddDate monthEnd1 0 0 (- 2)
                         else monthEnd1)
         in monthEndLoop start (AddDate current 0 1 0) end
              (if \<not> Before monthEnd start then dates @ [Format_20060102 monthEnd] else dates))
      else dates)"
  by pat_completeness auto
termination
proof (relation "measure (\<lambda>(start, current, end, dates). nat (end + 1 - current))", goal_cases)
  case 1
  show ?case by simp
next
  case (2 start current "end" dates)
  then show ?case using AddDate_month_gt[of current] by (simp add: After_def)
qed

declare monthEndLoop.simps [simp del]

definition generateMonthEndDatesFallback :: "string \<Rightarrow> string \<Rightarrow> string list" where
  "generateMonthEndDatesFallback startDate endDate =
     (let start = parseIgnoringError startDate;
          end = parseIgnoringError endDate;
          current = Date (Year start) (Month start) 1
      in monthEndLoop start current end [])"

definition generateMonthEndDates ::
  "DataFetcher \<Rightarrow> provider \<Rightarrow> string \<Rightarrow> string \<Rightarrow> net \<Rightarrow> string list \<times> net" where
  "generateMonthEndDates f prov startDate endDate s =
     (let start = parseIgnoringError startDate;
          end = parseIgnoringError endDate
      in case GetTradeCal (tushareClient f) prov startDate endDate 1 s of
           (Inl err, s') \<Rightarrow> (generateMonthEndDatesFallback startDate endDate, s')
         | (Inr tradeCals, s') \<Rightarrow>
             if tradeCals = [] then (generateMonthEndDatesFallback startDate endDate, s')
             else (monthLoop (monthlyLastTrade tradeCals)
                     (Date (Year start) (Month start) 1) end [], s'))"

subsection \<open>Vocabulary of the statements about the resolvers\<close>

text \<open>
  \<open>isWeekday\<close> is the test of the fallback loops; \<open>weekEnds\<close> keeps the last element of every
  run of equal ISO weeks; \<open>isoWeekOf\<close> is the ISO week of a date string. \<open>calendarOf\<close> is a
  provider that answers every call with the given calendar rows, \<open>testFetcher\<close> a fetcher
  that does not retry, and \<open>net0\<close> the network before any call.
\<close>

definition isWeekday :: "Time \<Rightarrow> bool" where
  "isWeekday t \<longleftrightarrow> Weekday t \<noteq> Saturday \<and> Weekday t \<noteq> Sunday"


fun weekEnds :: "Time list \<Rightarrow> Time list" where
  "weekEnds [] = []"
| "weekEnds [x] = [x]"
| "weekEnds (x # y # zs) =
     (if ISOWeek y \<noteq> ISOWeek x then x # weekEnds (y # zs) else weekEnds (y # zs))"

definition isoWeekOf :: "string \<Rightarrow> (int \<times> int) option" where
  "isoWeekOf x = map_option ISOWeek (Parse_20060102 x)"


definition calendarOf :: "(string \<times> int) list \<Rightarrow> provider" where
  "calendarOf days req n =
     Inr \<lparr> Code = 0, Msg = ''success'',
           Data = Some \<lparr> Fields = [''exchange'', ''cal_date'', ''is_open'', ''pretrade_date''],
                          Items = map (\<lambda>(d, isOpen). [JString ''SSE'', JString d, JFloat (of_int isOpen), JNil]) days \<rparr> \<rparr>"

definition testFetcher :: DataFetcher where
  "testFetcher = \<lparr> tushareClient = testClient 0,
                    config = \<lparr> Concurrency = 1, BatchSize = 1000, RateLimit = 60 \<rparr> \<rparr>"

definition net0 :: net where
  "net0 = \<lparr> calls = 0, slept = [] \<rparr>"

subsection \<open>The database and the batch inserts\<close>

text \<open>The task row; \<open>TaskEndDate\<close> is the field \<^verbatim>\<open>EndDate\<close>, whose name the price records
  already use, and the two columns the ORM stamps on its own are left out.\<close>

record FetchTask =
  ID :: nat
  TaskID :: string
  StartDate :: string
  TaskEndDate :: string
  Status :: string
  Progress :: int
  TotalCount :: int
  SuccessCount :: int
  FailedCount :: int
  ErrorMsg :: string
  StartTime :: int
  EndTime :: "int option"

text \<open>
  The world outside the fetcher. \<open>network\<close> is the provider; \<open>dbFails n\<close> says whether the
  \<open>n\<close>-th statement sent to the database fails, in which case it changes nothing;
  \<open>startedAt\<close> and \<open>finishedAt\<close> are the clock readings (Unix seconds) at the start and
  at the end of a job.
\<close>

record env =
  network :: provider
  dbFails :: "nat \<Rightarrow> bool"
  startedAt :: int
  finishedAt :: int

text \<open>
  The state: the network's, the number of statements sent to the database, every value the
  job's row of \<^verbatim>\<open>fetch_tasks\<close> has held (oldest first, the last one being the row as it
  stands), and the rows of the three price tables in insertion order.
\<close>

record world =
  net :: net
  stmts :: nat
  taskRows :: "FetchTask list"
  stock_daily :: "StockDaily list"
  stock_weekly :: "StockWeekly list"
  stock_monthly :: "StockMonthly list"

text \<open>\<^verbatim>\<open>f.db.Create(task)\<close>: the row is inserted and the task gets its key.\<close>

definition dbCreateTask :: "env \<Rightarrow> FetchTask \<Rightarrow> world \<Rightarrow> (error + FetchTask) \<times> world" where
  "dbCreateTask e task w =
     (if dbFails e (stmts w) then (Inl CreateTaskError, w\<lparr>stmts := stmts w + 1\<rparr>)
      else (Inr (task\<lparr>ID := 1\<rparr>), w\<lparr>stmts := stmts w + 1, taskRows := [task\<lparr>ID := 1\<rparr>]\<rparr>))"

text \<open>
  \<^verbatim>\<open>f.db.Save(task)\<close> overwrites the whole row, and \<^verbatim>\<open>updateTaskProgress\<close> three
  columns of the row with the given key. Either statement can fail like any other; the code
  never looks at the outcome, so a failure leaves the row as it was and the job goes on.
\<close>

definition dbSaveTask :: "env \<Rightarrow> FetchTask \<Rightarrow> world \<Rightarrow> world" where
  "dbSaveTask e task w =
     (if dbFails e (stmts w) then w\<lparr>stmts := stmts w + 1\<rparr>
      else w\<lparr>stmts := stmts w + 1, taskRows := taskRows w @ [task]\<rparr>)"

definition updateTaskProgress :: "env \<Rightarrow> nat \<Rightarrow> int \<Rightarrow> int \<Rightarrow> int \<Rightarrow> world \<Rightarrow> world" where
  "updateTaskProgress e taskID progress successCount failedCount w =
     (if dbFails e (stmts w) \<or> taskRows w = [] \<or> ID (last (taskRows w)) \<noteq> taskID
      then w\<lparr>stmts := stmts w + 1\<rparr>
      else w\<lparr>stmts := stmts w + 1,
             taskRows := taskRows w @ [(last (taskRows w))\<lparr>Progress := progress,
                           SuccessCount := successCount, FailedCount := failedCount\<rparr>]\<rparr>)"

text \<open>\<^verbatim>\<open>f.db.CreateInBatches(records, batchSize)\<close> into each of the price tables: all the
  records or, on an error, none; for an empty list of records no statement is sent and the
  call succeeds.\<close>

definition createDaily :: "env \<Rightarrow> StockDaily list \<Rightarrow> world \<Rightarrow> error option \<times> world" where
  "createDaily e records w =
     (if records = [] then (None, w)
      else if dbFails e (stmts w) then (Some InsertError, w\<lparr>stmts := stmts w + 1\<rparr>)
      else (None, w\<lparr>stmts := stmts w + 1, stock_daily := stock_daily w @ records\<rparr>))"

definition createWeekly :: "env \<Rightarrow> StockWeekly list \<Rightarrow> world \<Rightarrow> error option \<times> world" where
  "createWeekly e records w =
     (if records = [] then (None, w)
      else if dbFails e (stmts w) then (Some InsertError, w\<lparr>stmts := stmts w + 1\<rparr>)
      else (None, w\<lparr>stmts := stmts w + 1, stock_weekly := stock_weekly w @ records\<rparr>))"

definition createMonthly :: "env \<Rightarrow> StockMonthly list \<Rightarrow> world \<Rightarrow> error option \<times> world" where
  "createMonthly e records w =
     (if records = [] then (None, w)
      else if dbFails e (stmts w) then (Some InsertError, w\<lparr>stmts := stmts w + 1\<rparr>)
      else (None, w\<lparr>stmts := stmts w + 1, stock_monthly := stock_monthly w @ records\<rparr>))"

text \<open>
  The loop \<^verbatim>\<open>for i := 0; i < len(data); i += batchSize\<close> that the three batch inserts
  share; \<open>insertBatch\<close> is the body applied to \<^verbatim>\<open>data[i:end]\<close>: it builds the records of the
  batch and inserts them. With a batch size of 0 the Go loop never advances, and with a
  negative one the slice expression panics.
\<close>

function batchLoop ::
  "('a list \<Rightarrow> world \<Rightarrow> error option \<times> world) \<Rightarrow> int \<Rightarrow> 'a list \<Rightarrow> int \<Rightarrow> world
   \<Rightarrow> error option \<times> world" where
  "batchLoop insertBatch batchSize xs i w =
     (if i < int (length xs) then
        (if batchSize = 0 then (Some NeverReturns, w)
         else if batchSize < 0 then (Some SliceBoundsPanic, w)
         else let end = (if int (length xs) < i + batchSize then int (length xs) else i + batchSize);
                  batch = take (nat (end - i)) (drop (nat i) xs)
              in case insertBatch batch w of
                   (Some err, w') \<Rightarrow> (Some err, w')
                 | (None, w') \<Rightarrow> batchLoop insertBatch batchSize xs (i + batchSize) w')
      else (None, w))"
  by pat_completeness auto
termination
  by (relation "measure (\<lambda>(insertBatch, batchSize, xs, i, w). nat (int (length xs) - i))") auto

declare batchLoop.simps [simp del]

text \<open>The records of a batch. A daily record whose date does not parse keeps the zero
  time; a weekly record whose trade date or end date does not parse is skipped
  (\<^verbatim>\<open>continue\<close>); a monthly record is copied, its dates having been parsed by \<^verbatim>\<open>getTime\<close>.\<close>

definition dailyRecords :: "StockDailyData list \<Rightarrow> StockDaily list" where
  "dailyRecords batch =
     map (\<lambda>data.
       \<lparr> TSCode = TSCode data,
         TradeDate = (case Parse_20060102 (TradeDate data) of Some tradeDate \<Rightarrow> tradeDate
                      | None \<Rightarrow> zeroTime),
         Open = Open data, High = High data, Low = Low data, Close = Close data,
         PreClose = PreClose data, Change = Change data, PctChg = PctChg data,
         Vol = Vol data, Amount = Amount data \<rparr>) batch"

definition weeklyRecords :: "StockWeeklyData list \<Rightarrow> StockWeekly list" where
  "weeklyRecords batch =
     List.map_filter (\<lambda>data.
       case Parse_20060102 (TradeDate data) of
         None \<Rightarrow> None
       | Some tradeDate \<Rightarrow>
           (case Parse_20060102 (EndDate data) of
              None \<Rightarrow> None
            | Some endDate \<Rightarrow>
                Some \<lparr> TSCode = TSCode data, TradeDate = tradeDate,
                  Open = Open data, High = High data, Low = Low data, Close = Close data,
                  PreClose = PreClose data, Change = Change data, PctChg = PctChg data,
                  Vol = Vol data, Amount = Amount data, EndDate = endDate,
                  OpenQfq = OpenQfq data, HighQfq = HighQfq data, LowQfq = LowQfq data,
                  CloseQfq = CloseQfq data, OpenHfq = OpenHfq data, HighHfq = HighHfq data,
                  LowHfq = LowHfq data, CloseHfq = CloseHfq data \<rparr>)) batch"

definition monthlyRecords :: "StockMonthlyData list \<Rightarrow> StockMonthly list" where
  "monthlyRecords batch =
     map (\<lambda>data.
       \<lparr> TSCode = TSCode data, TradeDate = TradeDate data,
         Open = Open data, High = High data, Low = Low data, Close = Close data,
         PreClose = PreClose data, Change = Change data, PctChg = PctChg data,
         Vol = Vol data, Amount = Amount data, EndDate = EndDate data,
         OpenQfq = OpenQfq data, HighQfq = HighQfq data, LowQfq = LowQfq data,
         CloseQfq = CloseQfq data, OpenHfq = OpenHfq data, HighHfq = HighHfq data,
         LowHfq = LowHfq data, CloseHfq = CloseHfq data \<rparr>) batch"

definition batchInsertDailyData ::
  "DataFetcher \<Rightarrow> env \<Rightarrow> StockDailyData list \<Rightarrow> world \<Rightarrow> error option \<times> world" where
  "batchInsertDailyData f e dailyData w =
     batchLoop (\<lambda>batch. createDaily e (dailyRecords batch)) (BatchSize (config f)) dailyData 0 w"

definition batchInsertWeeklyData ::
  "DataFetcher \<Rightarrow> env \<Rightarrow> StockWeeklyData list \<Rightarrow> world \<Rightarrow> error option \<times> world" where
  "batchInsertWeeklyData f e weeklyData w =
     batchLoop (\<lambda>batch. createWeekly e (weeklyRecords batch)) (BatchSize (config f)) weeklyData 0 w"

definition batchInsertMonthlyData ::
  "DataFetcher \<Rightarrow> env \<Rightarrow> StockMonthlyData list \<Rightarrow> world \<Rightarrow> error option \<times> world" where
  "batchInsertMonthlyData f e monthlyData w =
     batchLoop (\<lambda>batch. createMonthly e (monthlyRecords batch)) (BatchSize (config f)) monthlyData 0 w"

subsection \<open>The fetch jobs\<close>

text \<open>
  A job hands one unit of work per date to an \<^verbatim>\<open>errgroup\<close> limited to
  \<^verbatim>\<open>config.Concurrency\<close> goroutines. The model runs the units one after another in the
  order of the date list, which is what the group does under a limit of 1; the waiting on
  the rate limiter takes time only and is left out, and the context is never cancelled
  (the handlers pass \<^verbatim>\<open>context.Background()\<close> and no unit returns an error).
  \<open>successCount\<close> and \<open>failedCount\<close> are the two shared counters, \<open>panicked\<close> the panic that
  stopped the job, if any. The limit is positive, as the validation of the configuration
  makes it (a group limited to 0 never starts a unit), and so is the retry bound at least 0
  wherever the client is called (below 0 the client makes no call and fails on a nil
  response, which the resolvers here would take for an error of the call). Units that
  overlap are the subject of the next subsection.
\<close>

record job =
  wld :: world
  successCount :: int
  failedCount :: int
  panicked :: "error option"

fun runUnits :: "('u \<Rightarrow> job \<Rightarrow> job) \<Rightarrow> 'u list \<Rightarrow> job \<Rightarrow> job" where
  "runUnits unit [] j = j"
| "runUnits unit (u # us) j = (if panicked j \<noteq> None then j else runUnits unit us (unit u j))"

text \<open>The unit of \<^verbatim>\<open>FetchDailyDataOptimized\<close> for the date at \<open>index\<close>; \<open>nDates\<close> is
  \<^verbatim>\<open>len(dates)\<close>.\<close>

definition dailyUnit :: "DataFetcher \<Rightarrow> env \<Rightarrow> nat \<Rightarrow> int \<Rightarrow> int \<Rightarrow> string \<Rightarrow> job \<Rightarrow> job" where
  "dailyUnit f e taskID nDates index date j =
     (case GetDailyData (tushareClient f) (network e) date '''' (net (wld j)) of
        (Inl err, n') \<Rightarrow> j\<lparr>wld := (wld j)\<lparr>net := n'\<rparr>, failedCount := failedCount j + 1\<rparr>
      | (Inr dailyData, n') \<Rightarrow>
          let j1 = j\<lparr>wld := (wld j)\<lparr>net := n'\<rparr>\<rparr>;
              j2 = (if dailyData \<noteq> [] then
                      (case batchInsertDailyData f e dailyData (wld j1) of
                         (Some err, w') \<Rightarrow> j1\<lparr>wld := w', failedCount := failedCount j1 + 1\<rparr>
                       | (None, w') \<Rightarrow> j1\<lparr>wld := w', successCount := successCount j1 + 1\<rparr>)
                    else j1)
          in if nDates = 0 then j2\<lparr>panicked := Some DivideByZeroPanic\<rparr>
             else j2\<lparr>wld := updateTaskProgress e taskID ((index + 1) * 100 div nDates)
                                (successCount j2) (failedCount j2) (wld j2)\<rparr>)"

text \<open>The unit of \<^verbatim>\<open>FetchWeeklyData\<close>; \<open>totalCount\<close> is \<^verbatim>\<open>task.TotalCount\<close>.\<close>

definition weeklyUnit :: "DataFetcher \<Rightarrow> env \<Rightarrow> nat \<Rightarrow> int \<Rightarrow> string \<Rightarrow> job \<Rightarrow> job" where
  "weeklyUnit f e taskID totalCount week_date j =
     (case GetWeeklyData (tushareClient f) (network e) week_date (net (wld j)) of
        (Inl err, n') \<Rightarrow> j\<lparr>wld := (wld j)\<lparr>net := n'\<rparr>, failedCount := failedCount j + 1\<rparr>
      | (Inr weeklyData, n') \<Rightarrow>
          let j1 = j\<lparr>wld := (wld j)\<lparr>net := n'\<rparr>\<rparr>;
              j2 = (if weeklyData \<noteq> [] then
                      (case batchInsertWeeklyData f e weeklyData (wld j1) of
                         (Some err, w') \<Rightarrow> j1\<lparr>wld := w', failedCount := failedCount j1 + 1\<rparr>
                       | (None, w') \<Rightarrow> j1\<lparr>wld := w', successCount := successCount j1 + 1\<rparr>)
                    else j1\<lparr>successCount := successCount j1 + 1\<rparr>);
              total = successCount j2 + failedCount j2
          in if totalCount = 0 then j2\<lparr>panicked := Some DivideByZeroPanic\<rparr>
             else j2\<lparr>wld := updateTaskProgress e taskID (total * 100 div totalCount)
                                (successCount j2) (failedCount j2) (wld j2)\<rparr>)"

definition newTask :: "string \<Rightarrow> env \<Rightarrow> string \<Rightarrow> string \<Rightarrow> FetchTask" where
  "newTask prefix e startDate endDate =
     \<lparr> ID = 0, TaskID = prefix @ appendInt (startedAt e) 0, StartDate = startDate,
       TaskEndDate = endDate, Status = ''running'', Progress = 0, TotalCount = 0,
       SuccessCount = 0, FailedCount = 0, ErrorMsg = '''', StartTime = startedAt e,
       EndTime = None \<rparr>"

text \<open>What both jobs do once all units have returned.\<close>

definition finishTask :: "env \<Rightarrow> FetchTask \<Rightarrow> job \<Rightarrow> (error + FetchTask) \<times> world" where
  "finishTask e task j =
     (case panicked j of
        Some p \<Rightarrow> (Inl p, wld j)
      | None \<Rightarrow>
          let task' = task\<lparr>EndTime := Some (finishedAt e), Status := ''completed'',
                          Progress := 100, SuccessCount := successCount j,
                          FailedCount := failedCount j\<rparr>
          in (Inr task', dbSaveTask e task' (wld j)))"

definition FetchDailyDataOptimized ::
  "DataFetcher \<Rightarrow> env \<Rightarrow> string \<Rightarrow> string \<Rightarrow> world \<Rightarrow> (error + FetchTask) \<times> world" where
  "FetchDailyDataOptimized f e startDate endDate w =
     (case dbCreateTask e (newTask ''task_'' e startDate endDate) w of
        (Inl err, w1) \<Rightarrow> (Inl err, w1)
      | (Inr task, w1) \<Rightarrow>
          (case generateDateRange f (network e) startDate endDate (net w1) of
             (dates, n2) \<Rightarrow>
               let task' = task\<lparr>TotalCount := int (length dates)\<rparr>;
                   w2 = dbSaveTask e task' (w1\<lparr>net := n2\<rparr>)
               in finishTask e task'
                    (runUnits (\<lambda>(i, date). dailyUnit f e (ID task') (int (length dates)) (int i) date)
                       (enumerate 0 dates)
                       \<lparr> wld = w2, successCount = 0, failedCount = 0, panicked = None \<rparr>)))"

definition FetchWeeklyData ::
  "DataFetcher \<Rightarrow> env \<Rightarrow> string \<Rightarrow> string \<Rightarrow> world \<Rightarrow> (error + FetchTask) \<times> world" where
  "FetchWeeklyData f e startDate endDate w =
     (case dbCreateTask e (newTask ''weekly_task_'' e startDate endDate) w of
        (Inl err, w1) \<Rightarrow> (Inl err, w1)
      | (Inr task, w1) \<Rightarrow>
          (case generateWeekDateRange f (network e) startDate endDate (net w1) of
             (dates, n2) \<Rightarrow>
               let task' = task\<lparr>TotalCount := int (length dates)\<rparr>;
                   w2 = dbSaveTask e task' (w1\<lparr>net := n2\<rparr>)
               in finishTask e task'
                    (runUnits (weeklyUnit f e (ID task') (TotalCount task')) dates
                       \<lparr> wld = w2, successCount = 0, failedCount = 0, panicked = None \<rparr>)))"

subsection \<open>Units running side by side\<close>

text \<open>
  With a limit above 1 the units of a job overlap. What they share is the two counters,
  incremented with \<^verbatim>\<open>atomic.AddInt64\<close>, loaded with \<^verbatim>\<open>atomic.LoadInt64\<close> for the
  weekly progress and read once more, one after the other, for the arguments of
  \<^verbatim>\<open>updateTaskProgress\<close>, and the row of the task, which \<^verbatim>\<open>updateTaskProgress\<close>
  overwrites with the values it was handed. Between two of these accesses any other unit
  may run. A unit is therefore cut into the steps below, \<open>pc\<close> holding where it stands and
  what it has read so far:

    \<^item> \<open>Ready\<close>: the call and the insert, ended by the one atomic add of the \<open>outcome\<close>
      (a failed call adds to the failures and ends the unit; a failed insert adds to the
      failures; an insert adds to the successes; no row adds to the successes in the weekly
      job and to nothing in the daily and the monthly one);
    \<^item> \<open>Counted\<close>, \<open>GotSuccess\<close>, \<open>GotTotal\<close>: the two loads of the weekly progress
      \<^verbatim>\<open>total*100/TotalCount\<close>; the daily and the monthly unit take
      \<^verbatim>\<open>(index+1)*100/len(dates)\<close> instead;
    \<^item> \<open>ArgSuccess\<close>, \<open>ArgBoth\<close>: the reads of the two arguments;
    \<^item> the update of the row, recorded in \<open>written\<close> as (progress, success, failed); an
      update the database refuses changes nothing, so the values that reach the row are
      among these.

  \<open>stepUnit\<close> makes the next step of unit \<open>u\<close>; \<open>interleave\<close> follows a schedule, the list
  of the units in the order of their steps. Every run of the group is such a schedule,
  whatever the limit. The number of units is the length of \<open>pcs\<close>, which is
  \<^verbatim>\<open>task.TotalCount\<close>. The unit of the monthly job has the shape of the daily one.
\<close>

datatype outcome = FetchFailed | NoRows | InsertFailed | Inserted

datatype frequency = Daily | Weekly

datatype pc =
    Ready
  | Counted
  | GotSuccess int
  | GotTotal int
  | ArgSuccess int int
  | ArgBoth int int int
  | Done

record pool =
  nSuccess :: int
  nFailed :: int
  written :: "(int \<times> int \<times> int) list"
  pcs :: "pc list"

definition stepUnit :: "frequency \<Rightarrow> (nat \<Rightarrow> outcome) \<Rightarrow> nat \<Rightarrow> pool \<Rightarrow> pool" where
  "stepUnit freq outcomes u c =
     (if length (pcs c) \<le> u then c
      else case pcs c ! u of
        Ready \<Rightarrow>
          (case outcomes u of
             FetchFailed \<Rightarrow> c\<lparr>nFailed := nFailed c + 1, pcs := (pcs c)[u := Done]\<rparr>
           | InsertFailed \<Rightarrow> c\<lparr>nFailed := nFailed c + 1, pcs := (pcs c)[u := Counted]\<rparr>
           | Inserted \<Rightarrow> c\<lparr>nSuccess := nSuccess c + 1, pcs := (pcs c)[u := Counted]\<rparr>
           | NoRows \<Rightarrow>
               (case freq of
                  Weekly \<Rightarrow> c\<lparr>nSuccess := nSuccess c + 1, pcs := (pcs c)[u := Counted]\<rparr>
                | Daily \<Rightarrow> c\<lparr>pcs := (pcs c)[u := Counted]\<rparr>))
      | Counted \<Rightarrow>
          (case freq of
             Weekly \<Rightarrow> c\<lparr>pcs := (pcs c)[u := GotSuccess (nSuccess c)]\<rparr>
           | Daily \<Rightarrow> c\<lparr>pcs := (pcs c)[u :=
                        ArgSuccess ((int u + 1) * 100 div int (length (pcs c))) (nSuccess c)]\<rparr>)
      | GotSuccess t \<Rightarrow> c\<lparr>pcs := (pcs c)[u := GotTotal (t + nFailed c)]\<rparr>
      | GotTotal tot \<Rightarrow>
          c\<lparr>pcs := (pcs c)[u := ArgSuccess (tot * 100 div int (length (pcs c))) (nSuccess c)]\<rparr>
      | ArgSuccess p s \<Rightarrow> c\<lparr>pcs := (pcs c)[u := ArgBoth p s (nFailed c)]\<rparr>
      | ArgBoth p s f \<Rightarrow> c\<lparr>written := written c @ [(p, s, f)], pcs := (pcs c)[u := Done]\<rparr>
      | Done \<Rightarrow> c)"

definition pool0 :: "nat \<Rightarrow> pool" where
  "pool0 n = \<lparr> nSuccess = 0, nFailed = 0, written = [], pcs = replicate n Ready \<rparr>"

definition interleave :: "frequency \<Rightarrow> (nat \<Rightarrow> outcome) \<Rightarrow> nat list \<Rightarrow> pool \<Rightarrow> pool" where
  "interleave freq outcomes schedule c = foldl (\<lambda>c u. stepUnit freq outcomes u c) c schedule"

subsection \<open>Vocabulary of the statements about the jobs\<close>

text \<open>
  \<open>marketOf days bars\<close> is a provider that answers the calendar call with \<open>days\<close> and a
  bar call for a date with \<open>bars\<close> of that date; \<open>testEnv\<close> an environment whose database
  never fails; \<open>world0\<close> the world before the job; \<open>counters\<close> the four numbers of a task
  row. \<open>countsBounded\<close> is the invariant of the row, \<open>jobInv\<close> the invariant of a running
  job after \<open>k\<close> of its \<open>n\<close> units. \<open>datesParse\<close> holds of a weekly bar both of whose date
  strings parse, and \<open>weeklyRecord\<close> is the row stored for it. \<open>started\<close>, \<open>pcOk\<close> and
  \<open>poolInv\<close> state the invariant of interleaved units: the counters count units that have
  started, and no unit holds a value above the counter it read it from.
\<close>

definition tradeDateOf :: "TushareRequest \<Rightarrow> string" where
  "tradeDateOf req = (case map_of (Params req) ''trade_date'' of Some (JString d) \<Rightarrow> d | _ \<Rightarrow> '''')"

definition marketOf :: "(string \<times> int) list \<Rightarrow> (string \<Rightarrow> string + TushareData) \<Rightarrow> provider" where
  "marketOf days bars req n =
     (if APIName req = ''trade_cal'' then calendarOf days req n
      else case bars (tradeDateOf req) of
             Inl e \<Rightarrow> Inl e
           | Inr data \<Rightarrow> Inr \<lparr> Code = 0, Msg = ''success'', Data = Some data \<rparr>)"

definition testEnv :: "provider \<Rightarrow> env" where
  "testEnv prov = \<lparr> network = prov, dbFails = (\<lambda>n. False), startedAt = 1701388800,
                    finishedAt = 1701388860 \<rparr>"

definition world0 :: world where
  "world0 = \<lparr> net = net0, stmts = 0, taskRows = [], stock_daily = [], stock_weekly = [],
              stock_monthly = [] \<rparr>"

definition counters :: "FetchTask \<Rightarrow> int \<times> int \<times> int \<times> int" where
  "counters row = (Progress row, SuccessCount row, FailedCount row, TotalCount row)"

definition countsBounded :: "FetchTask \<Rightarrow> bool" where
  "countsBounded row \<longleftrightarrow> SuccessCount row + FailedCount row \<le> TotalCount row"

definition datesParse :: "StockWeeklyData \<Rightarrow> bool" where
  "datesParse data \<longleftrightarrow>
     Parse_20060102 (TradeDate data) \<noteq> None \<and> Parse_20060102 (EndDate data) \<noteq> None"

definition weeklyRecord :: "StockWeeklyData \<Rightarrow> StockWeekly" where
  "weeklyRecord data =
     \<lparr> TSCode = TSCode data, TradeDate = parseIgnoringError (TradeDate data),
       Open = Open data, High = High data, Low = Low data, Close = Close data,
       PreClose = PreClose data, Change = Change data, PctChg = PctChg data,
       Vol = Vol data, Amount = Amount data, EndDate = parseIgnoringError (EndDate data),
       OpenQfq = OpenQfq data, HighQfq = HighQfq data, LowQfq = LowQfq data,
       CloseQfq = CloseQfq data, OpenHfq = OpenHfq data, HighHfq = HighHfq data,
       LowHfq = LowHfq data, CloseHfq = CloseHfq data \<rparr>"

definition weekRows :: TushareData where
  "weekRows = \<lparr> Fields = [''ts_code'', ''trade_date'', ''end_date'', ''close''],
      Items = [[JString ''000001.SZ'', JString ''20231229'', JString ''20231231'', JFloat 9.5],
               [JString ''000002.SZ'', JString ''2023-12-29'', JString ''20231231'', JFloat 7.25],
               [JString ''000003.SZ'', JString ''20231229'', JString ''20231231'', JFloat 3]] \<rparr>"

definition jobInv :: "int \<Rightarrow> int \<Rightarrow> job \<Rightarrow> bool" where
  "jobInv n k j \<longleftrightarrow>
     successCount j + failedCount j \<le> k
     \<and> list_all countsBounded (taskRows (wld j))
     \<and> (taskRows (wld j) \<noteq> [] \<longrightarrow> TotalCount (last (taskRows (wld j))) = n)"

definition started :: "pc \<Rightarrow> int" where
  "started p = (if p = Ready then 0 else 1)"

definition pcOk :: "pool \<Rightarrow> pc \<Rightarrow> bool" where
  "pcOk c p = (case p of
      GotSuccess t \<Rightarrow> t \<le> nSuccess c
    | GotTotal tot \<Rightarrow> True
    | ArgSuccess p s \<Rightarrow> s \<le> nSuccess c
    | ArgBoth p s f \<Rightarrow> s \<le> nSuccess c \<and> f \<le> nFailed c
    | _ \<Rightarrow> True)"

definition poolInv :: "pool \<Rightarrow> bool" where
  "poolInv c \<longleftrightarrow>
     nSuccess c + nFailed c \<le> sum_list (map started (pcs c))
     \<and> list_all (pcOk c) (pcs c)
     \<and> list_all (\<lambda>(p, s, f). s + f \<le> int (length (pcs c))) (written c)"

subsection \<open>Facts about the resolvers\<close>

lemma isWeekday_fun: "isWeekday = (\<lambda>t. Weekday t \<noteq> Saturday \<and> Weekday t \<noteq> Sunday)"
  by (rule ext) (simp add: isWeekday_def)

lemma weekdayLoop_eq:
  "weekdayLoop d end dates = dates @ map Format_20060102 (filter isWeekday [d..end])"
proof (induction d "end" dates rule: weekdayLoop.induct)
  case (1 d "end" dates)
  show ?case
  proof (cases "d \<le> end")
    case True
    then have u: "[d..end] = d # [d + 1..end]" by (simp add: upto_rec1)
    have "weekdayLoop d end dates =
        weekdayLoop (d + 1) end (if isWeekday d then dates @ [Format_20060102 d] else dates)"
      by (subst weekdayLoop.simps) (use True in \<open>simp add: After_def AddDate_days isWeekday_fun\<close>)
    also have "\<dots> = (if isWeekday d then dates @ [Format_20060102 d] else dates)
        @ map Format_20060102 (filter isWeekday [d + 1..end])"
      using 1[unfolded AddDate_days] True by (simp add: After_def isWeekday_fun)
    finally show ?thesis unfolding u by (simp add: isWeekday_fun)
  next
    case False
    then have "[d..end] = []" by simp
    moreover have "weekdayLoop d end dates = dates"
      by (subst weekdayLoop.simps) (use False in \<open>simp add: After_def\<close>)
    ultimately show ?thesis by simp
  qed
qed

lemma epoch_bounds: "daysSinceEpoch 0 = - 366" "daysSinceEpoch 10000 = 3652059"
  by (simp_all add: daysSinceEpoch_def)

lemma parseIgnoringError_range:
  "daysSinceEpoch 0 \<le> parseIgnoringError s" "parseIgnoringError s < daysSinceEpoch 10000"
  using Parse_range[of s]
  by (auto simp: parseIgnoringError_def zeroTime_def epoch_bounds split: option.splits)

lemma generateDateRangeFallback_eq:
  "generateDateRangeFallback startDate endDate =
     map Format_20060102 (filter isWeekday [parseIgnoringError startDate..parseIgnoringError endDate])"
  by (simp add: generateDateRangeFallback_def weekdayLoop_eq)

lemma generateWeekDateRangeFallback_eq:
  "generateWeekDateRangeFallback startDate endDate =
     map Format_20060102 (filter isWeekday [parseIgnoringError startDate..parseIgnoringError endDate])"
  by (simp add: generateWeekDateRangeFallback_def weekdayLoop_eq)

lemma fallback_days_member:
  assumes "x \<in> set (map Format_20060102 (filter isWeekday [parseIgnoringError startDate..parseIgnoringError endDate]))"
  shows "\<exists>t. Parse_20060102 x = Some t \<and> isWeekday t
           \<and> parseIgnoringError startDate \<le> t \<and> t \<le> parseIgnoringError endDate"
proof -
  from assms obtain t where t: "x = Format_20060102 t" "isWeekday t"
    "parseIgnoringError startDate \<le> t" "t \<le> parseIgnoringError endDate" by auto
  have "Parse_20060102 x = Some t"
    unfolding t(1) using t(3,4) parseIgnoringError_range(1)[of startDate]
      parseIgnoringError_range(2)[of endDate] by (intro Parse_Format) linarith+
  with t show ?thesis by blast
qed

lemma fallback_days_strict:
  "sorted_wrt (<) (map Format_20060102 (filter isWeekday [parseIgnoringError startDate..parseIgnoringError endDate]))"
proof -
  let ?ts = "filter isWeekday [parseIgnoringError startDate..parseIgnoringError endDate]"
  have s: "sorted_wrt (<) ?ts"
    by (intro sorted_wrt_filter) (simp add: strict_sorted_iff)
  have "sorted_wrt (\<lambda>a b. Format_20060102 a < Format_20060102 b) ?ts"
  proof (rule sorted_wrt_mono_rel[OF _ s])
    fix a b assume "a \<in> set ?ts" "b \<in> set ?ts" "a < b"
    then show "Format_20060102 a < Format_20060102 b"
      using parseIgnoringError_range(1)[of startDate] parseIgnoringError_range(2)[of endDate]
      by (intro Format_less) auto
  qed
  then show ?thesis by (simp add: sorted_wrt_map)
qed

lemma monthEndLoop_inv:
  assumes "\<forall>x\<in>set dates. \<exists>t. x = Format_20060102 t \<and> isWeekday t \<and> start \<le> t \<and> t \<le> end"
  shows "\<forall>x\<in>set (monthEndLoop start current end dates).
           \<exists>t. x = Format_20060102 t \<and> isWeekday t \<and> start \<le> t \<and> t \<le> end"
  using assms
proof (induction start current "end" dates rule: monthEndLoop.induct)
  case (1 start current "end" dates)
  show ?case
  proof (cases "After current end")
    case True
    then show ?thesis using 1(2) by (subst monthEndLoop.simps) simp
  next
    case False
    define monthEnd0 where "monthEnd0 = AddDate current 0 1 (- 1)"
    define monthEnd1 where "monthEnd1 = (if After monthEnd0 end then end else monthEnd0)"
    define monthEnd where "monthEnd = (if Weekday monthEnd1 = Saturday then AddDate monthEnd1 0 0 (- 1)
                         else if Weekday monthEnd1 = Sunday then AddDate monthEnd1 0 0 (- 2)
                         else monthEnd1)"
    define dates' where "dates' = (if \<not> Before monthEnd start then dates @ [Format_20060102 monthEnd] else dates)"
    have le1: "monthEnd1 \<le> end" unfolding monthEnd1_def After_def by simp
    have le: "monthEnd \<le> end" unfolding monthEnd_def AddDate_days using le1 by simp
    have wd: "isWeekday monthEnd"
      unfolding monthEnd_def AddDate_days isWeekday_def
      using Weekday_back[of monthEnd1]
      by (auto simp: Friday_def Saturday_def Sunday_def)
    have inv: "\<forall>x\<in>set dates'. \<exists>t. x = Format_20060102 t \<and> isWeekday t \<and> start \<le> t \<and> t \<le> end"
      unfolding dates'_def using 1(2) le wd by (auto simp: Before_def)
    have step: "monthEndLoop start current end dates = monthEndLoop start (AddDate current 0 1 0) end dates'"
      by (subst monthEndLoop.simps)
         (use False in \<open>simp add: Let_def monthEnd0_def monthEnd1_def monthEnd_def dates'_def\<close>)
    show ?thesis
      unfolding step
      by (rule 1(1)[OF False monthEnd0_def monthEnd1_def monthEnd_def, folded dates'_def, OF inv])
  qed
qed

lemma monthEndLoop_inverted:
  assumes "end < start"
  shows "monthEndLoop start current end dates = dates"
  using assms
proof (induction start current "end" dates rule: monthEndLoop.induct)
  case (1 start current "end" dates)
  show ?case
  proof (cases "After current end")
    case True
    then show ?thesis by (subst monthEndLoop.simps) simp
  next
    case False
    define monthEnd0 where "monthEnd0 = AddDate current 0 1 (- 1)"
    define monthEnd1 where "monthEnd1 = (if After monthEnd0 end then end else monthEnd0)"
    define monthEnd where "monthEnd = (if Weekday monthEnd1 = Saturday then AddDate monthEnd1 0 0 (- 1)
                         else if Weekday monthEnd1 = Sunday then AddDate monthEnd1 0 0 (- 2)
                         else monthEnd1)"
    have le1: "monthEnd1 \<le> end" unfolding monthEnd1_def After_def by simp
    have le: "monthEnd \<le> end" unfolding monthEnd_def AddDate_days using le1 by simp
    then have b: "Before monthEnd start" using 1(2) by (simp add: Before_def)
    note b' = b[unfolded monthEnd_def monthEnd1_def monthEnd0_def]
    have step: "monthEndLoop start current end dates = monthEndLoop start (AddDate current 0 1 0) end dates"
      by (subst monthEndLoop.simps) (simp only: Let_def False b' simp_thms if_True if_False)
    show ?thesis
      unfolding step
      using 1(1)[OF False monthEnd0_def monthEnd1_def monthEnd_def] b 1(2) by simp
  qed
qed

lemma weekLoop_eq:
  "weekLoop dates (ISOWeek l) l acc = acc @ map Format_20060102 (weekEnds (l # dates))"
proof (induction dates arbitrary: l acc)
  case Nil
  show ?case by simp
next
  case (Cons d dates)
  show ?case
  proof (cases "ISOWeek d = ISOWeek l")
    case True
    then show ?thesis using Cons[of d acc] by simp
  next
    case False
    then show ?thesis using Cons[of d "acc @ [Format_20060102 l]"] by simp
  qed
qed

lemma weekEnds_subset: "set (weekEnds ds) \<subseteq> set ds"
  by (induction ds rule: weekEnds.induct) auto

lemma weekEnds_sorted: "sorted ds \<Longrightarrow> sorted (weekEnds ds)"
  using weekEnds_subset by (induction ds rule: weekEnds.induct) fastforce+

lemma weekEnds_weeks: "ISOWeek ` set (weekEnds ds) = ISOWeek ` set ds"
proof (induction ds rule: weekEnds.induct)
  case (3 x y zs)
  then show ?case by (cases "ISOWeek y = ISOWeek x") auto
qed simp_all

lemma week_not_later:
  assumes "sorted (x # y # zs)" "ISOWeek y \<noteq> ISOWeek x" "z \<in> set (y # zs)"
  shows "ISOWeek z \<noteq> ISOWeek x"
proof
  assume e: "ISOWeek z = ISOWeek x"
  have "x \<le> y" "y \<le> z" using assms(1,3) by auto
  from ISOWeek_convex[OF this e[symmetric]] assms(2) show False by simp
qed

lemma weekEnds_distinct: "sorted ds \<Longrightarrow> distinct (map ISOWeek (weekEnds ds))"
proof (induction ds rule: weekEnds.induct)
  case (3 x y zs)
  from 3(3) have s: "sorted (y # zs)" by simp
  show ?case
  proof (cases "ISOWeek y \<noteq> ISOWeek x")
    case True
    have "ISOWeek x \<notin> ISOWeek ` set (weekEnds (y # zs))"
      using week_not_later[OF 3(3) True] weekEnds_subset[of "y # zs"] by (metis imageE subsetD)
    with True 3(1)[OF True s] show ?thesis by simp
  next
    case False
    with 3(2)[OF False s] show ?thesis by simp
  qed
qed simp_all

lemma weekEnds_max:
  "sorted ds \<Longrightarrow> z \<in> set (weekEnds ds) \<Longrightarrow> d \<in> set ds \<Longrightarrow> ISOWeek d = ISOWeek z \<Longrightarrow> d \<le> z"
proof (induction ds rule: weekEnds.induct)
  case (3 x y zs)
  from 3(3) have s: "sorted (y # zs)" by simp
  show ?case
  proof (cases "ISOWeek y \<noteq> ISOWeek x")
    case True
    show ?thesis
    proof (cases "z = x")
      case zx: True
      have "d \<notin> set (y # zs)" using week_not_later[OF 3(3) True, of d] 3(6) zx by auto
      with 3(5) zx show ?thesis by simp
    next
      case False
      with 3(4) True have zin: "z \<in> set (weekEnds (y # zs))" by simp
      then have zs: "z \<in> set (y # zs)" using weekEnds_subset by blast
      show ?thesis
      proof (cases "d = x")
        case True
        then show ?thesis using 3(3) zs by auto
      next
        case False
        with 3(5) have "d \<in> set (y # zs)" by simp
        from 3(1)[OF True s zin this 3(6)] show ?thesis .
      qed
    qed
  next
    case False
    with 3(4) have zin: "z \<in> set (weekEnds (y # zs))" by simp
    then have zs: "z \<in> set (y # zs)" using weekEnds_subset by blast
    show ?thesis
    proof (cases "d = x")
      case True
      then show ?thesis using 3(3) zs by auto
    next
      case F: False
      with 3(5) have "d \<in> set (y # zs)" by simp
      from 3(2)[OF False s zin this 3(6)] show ?thesis .
    qed
  qed
qed simp_all

lemma set_map_filter: "set (List.map_filter g xs) = {y. \<exists>x\<in>set xs. g x = Some y}"
  by (induction xs) (auto simp: List.map_filter_simps split: option.splits)

lemma sorted_map_filter_Parse:
  "sorted ds \<Longrightarrow> sorted (List.map_filter Parse_20060102 ds)"
proof (induction ds)
  case Nil
  show ?case by (simp add: List.map_filter_simps)
next
  case (Cons x xs)
  then have ih: "sorted (List.map_filter Parse_20060102 xs)" by simp
  show ?case
  proof (cases "Parse_20060102 x")
    case None
    with ih show ?thesis by (simp add: List.map_filter_simps)
  next
    case (Some t)
    have "t \<le> u" if "u \<in> set (List.map_filter Parse_20060102 xs)" for u
    proof -
      from that obtain y where y: "y \<in> set xs" "Parse_20060102 y = Some u"
        unfolding set_map_filter by auto
      with Cons.prems have "x \<le> y" by auto
      then show ?thesis using Parse_le_iff[OF Some y(2)] by simp
    qed
    with ih Some show ?thesis by (auto simp: List.map_filter_simps)
  qed
qed

lemma getTradeDates_Inr:
  assumes "getTradeDates f prov startDate endDate s = (Inr ds, s')"
  obtains calData where
    "GetTradeCal (tushareClient f) prov startDate endDate 1 s = (Inr calData, s')"
    "ds = sort (map CalDate (filter (\<lambda>cal. IsOpen cal = 1) calData))"
  using assms unfolding getTradeDates_def
  by (auto split: prod.splits sum.splits)

lemma getTradeDates_sorted:
  assumes "getTradeDates f prov startDate endDate s = (Inr ds, s')"
  shows "sorted ds"
  using assms by (elim getTradeDates_Inr) simp

lemma generateWeekDateRange_eq:
  assumes "getTradeDates f prov startDate endDate s = (Inr ds, s')"
  shows "generateWeekDateRange f prov startDate endDate s =
         (map Format_20060102 (weekEnds (List.map_filter Parse_20060102 ds)), s')"
proof (cases "List.map_filter Parse_20060102 ds")
  case Nil
  then show ?thesis
    unfolding generateWeekDateRange_def assms by simp
next
  case (Cons x xs)
  then have "ds \<noteq> []" by (auto simp: List.map_filter_simps)
  then show ?thesis
    unfolding generateWeekDateRange_def assms Let_def
    by (simp add: Cons weekLoop_eq)
qed

lemma weekEnds_parsed:
  assumes "e \<in> set (weekEnds (List.map_filter Parse_20060102 ds))"
  shows "Format_20060102 e \<in> set ds" "Parse_20060102 (Format_20060102 e) = Some e"
proof -
  from assms weekEnds_subset have "e \<in> set (List.map_filter Parse_20060102 ds)" by blast
  then obtain x where x: "x \<in> set ds" "Parse_20060102 x = Some e" unfolding set_map_filter by auto
  from Format_Parse[OF x(2)] x show "Format_20060102 e \<in> set ds"
    "Parse_20060102 (Format_20060102 e) = Some e" by simp_all
qed

subsection \<open>Facts about the batch inserts\<close>

lemma batchLoop_keeps:
  assumes "\<And>batch w. P (snd (insertBatch batch w)) = P w"
  shows "P (snd (batchLoop insertBatch batchSize xs i w)) = P w"
  using assms
proof (induction insertBatch batchSize xs i w rule: batchLoop.induct)
  case (1 insertBatch batchSize xs i w)
  show ?case
  proof (cases "i < int (length xs) \<and> 0 < batchSize")
    case False
    then show ?thesis by (subst batchLoop.simps) auto
  next
    case True
    define end' where "end' = (if int (length xs) < i + batchSize then int (length xs) else i + batchSize)"
    define batch where "batch = take (nat (end' - i)) (drop (nat i) xs)"
    obtain r w' where ib: "insertBatch batch w = (r, w')" by (cases "insertBatch batch w")
    have pw': "P w' = P w" using 1(2)[of batch w] ib by simp
    show ?thesis
    proof (cases r)
      case (Some err)
      then show ?thesis
        by (subst batchLoop.simps) (use True ib pw' in \<open>simp add: Let_def end'_def[symmetric] batch_def[symmetric]\<close>)
    next
      case None
      have "batchLoop insertBatch batchSize xs i w = batchLoop insertBatch batchSize xs (i + batchSize) w'"
        by (subst batchLoop.simps) (use True ib None in \<open>simp add: Let_def end'_def[symmetric] batch_def[symmetric]\<close>)
      moreover have "P (snd (batchLoop insertBatch batchSize xs (i + batchSize) w')) = P w'"
      proof -
        have a: "i < int (length xs)" "batchSize \<noteq> 0" "\<not> batchSize < 0" using True by simp_all
        show ?thesis by (rule 1(1)[OF a end'_def batch_def ib[symmetric] None 1(2)])
      qed
      ultimately show ?thesis using pw' by simp
    qed
  qed
qed

lemma batchLoop_appends:
  assumes "0 < batchSize" "0 \<le> i"
    and "\<And>batch w. fst (insertBatch batch w) = None \<and> tbl (snd (insertBatch batch w)) = tbl w @ conv batch"
    and "\<And>a b. conv (a @ b) = conv a @ conv b"
  shows "fst (batchLoop insertBatch batchSize xs i w) = None
       \<and> tbl (snd (batchLoop insertBatch batchSize xs i w)) = tbl w @ conv (drop (nat i) xs)"
  using assms
proof (induction insertBatch batchSize xs i w rule: batchLoop.induct)
  case (1 insertBatch batchSize xs i w)
  note ins = 1(4) and cv = 1(5)
  have c0: "conv [] = []" using cv[of "[]" "[]"] by simp
  show ?case
  proof (cases "i < int (length xs)")
    case False
    then have "drop (nat i) xs = []" by simp
    then show ?thesis by (subst (1 2) batchLoop.simps) (use False c0 in simp)
  next
    case True
    define end' where "end' = (if int (length xs) < i + batchSize then int (length xs) else i + batchSize)"
    define batch where "batch = take (nat (end' - i)) (drop (nat i) xs)"
    obtain r w' where ib: "insertBatch batch w = (r, w')" by (cases "insertBatch batch w")
    from ins[of batch w] ib have r: "r = None" and tw: "tbl w' = tbl w @ conv batch" by simp_all
    have step: "batchLoop insertBatch batchSize xs i w = batchLoop insertBatch batchSize xs (i + batchSize) w'"
      by (subst batchLoop.simps) (use True ib r 1(2) in \<open>simp add: Let_def end'_def[symmetric] batch_def[symmetric]\<close>)
    have ih: "fst (batchLoop insertBatch batchSize xs (i + batchSize) w') = None
       \<and> tbl (snd (batchLoop insertBatch batchSize xs (i + batchSize) w'))
           = tbl w' @ conv (drop (nat (i + batchSize)) xs)"
    proof -
      have a: "i < int (length xs)" "batchSize \<noteq> 0" "\<not> batchSize < 0" using True 1(2) by simp_all
      have b: "0 \<le> i + batchSize" using 1(2,3) by simp
      show ?thesis by (rule 1(1)[OF a end'_def batch_def ib[symmetric] r 1(2) b ins cv])
    qed
    have split: "batch @ drop (nat (i + batchSize)) xs = drop (nat i) xs"
    proof (cases "int (length xs) < i + batchSize")
      case True
      then have "batch = drop (nat i) xs" "drop (nat (i + batchSize)) xs = []"
        unfolding batch_def end'_def using 1(3) by simp_all
      then show ?thesis by simp
    next
      case False
      then have e: "nat (end' - i) = nat batchSize" unfolding end'_def by simp
      have "nat (i + batchSize) = nat batchSize + nat i"
        using 1(2,3) by (simp add: nat_add_distrib)
      then have "drop (nat (i + batchSize)) xs = drop (nat batchSize) (drop (nat i) xs)"
        by (simp only: drop_drop)
      then show ?thesis unfolding batch_def e by (simp only: append_take_drop_id)
    qed
    show ?thesis unfolding step using ih tw cv[of batch "drop (nat (i + batchSize)) xs"] split by simp
  qed
qed

lemma weeklyRecords_eq: "weeklyRecords batch = map weeklyRecord (filter datesParse batch)"
proof (induction batch)
  case Nil
  show ?case by (simp add: weeklyRecords_def List.map_filter_simps)
next
  case (Cons d ds)
  then show ?case
    unfolding weeklyRecords_def
    by (auto simp: List.map_filter_simps datesParse_def weeklyRecord_def parseIgnoringError_def
          split: option.splits)
qed

lemma weeklyRecords_append: "weeklyRecords (a @ b) = weeklyRecords a @ weeklyRecords b"
  by (simp add: weeklyRecords_eq)

lemma dailyRecords_append: "dailyRecords (a @ b) = dailyRecords a @ dailyRecords b"
  by (simp add: dailyRecords_def)

lemma monthlyRecords_id: "monthlyRecords batch = batch"
  unfolding monthlyRecords_def by (rule map_idI) simp

lemma dailyRecords_dates:
  "map TradeDate (dailyRecords batch) = map (\<lambda>data. parseIgnoringError (TradeDate data)) batch"
  "map TSCode (dailyRecords batch) = map TSCode batch"
  by (simp_all add: dailyRecords_def parseIgnoringError_def comp_def)

lemma getTime_unparsed:
  "Parse_20060102 str = None \<Longrightarrow> 0 \<le> index \<Longrightarrow> index < int (length item)
     \<Longrightarrow> item ! nat index = JString str \<Longrightarrow> getTime item index = zeroTime"
  by (simp add: getTime_def)

subsection \<open>Facts about the jobs\<close>

lemma GetTradeCal_cases:
  obtains (ok) calData s' where "GetTradeCal c prov startDate endDate isOpen s = (Inr calData, s')"
  | (err) e s' where "GetTradeCal c prov startDate endDate isOpen s = (Inl e, s')"
  by (cases "GetTradeCal c prov startDate endDate isOpen s") (metis sum.exhaust_sel old.prod.exhaust)

lemma batchInsertDailyData_taskRows:
  "taskRows (snd (batchInsertDailyData f e dailyData w)) = taskRows w"
  unfolding batchInsertDailyData_def
  by (rule batchLoop_keeps) (simp add: createDaily_def)

lemma batchInsertWeeklyData_taskRows:
  "taskRows (snd (batchInsertWeeklyData f e weeklyData w)) = taskRows w"
  unfolding batchInsertWeeklyData_def
  by (rule batchLoop_keeps) (simp add: createWeekly_def)

lemma updateTaskProgress_inv:
  assumes "list_all countsBounded (taskRows w)"
    "taskRows w \<noteq> [] \<longrightarrow> TotalCount (last (taskRows w)) = n" "s + f \<le> n"
  shows "list_all countsBounded (taskRows (updateTaskProgress e tid p s f w))"
    "taskRows (updateTaskProgress e tid p s f w) \<noteq> [] \<longrightarrow>
       TotalCount (last (taskRows (updateTaskProgress e tid p s f w))) = n"
  using assms by (auto simp: updateTaskProgress_def countsBounded_def)

lemma dailyUnit_inv:
  assumes "jobInv n k j" "k < n"
  shows "jobInv n (k + 1) (dailyUnit f e tid nDates index date j)"
proof (cases "GetDailyData (tushareClient f) (network e) date '''' (net (wld j))")
  case (Pair r n')
  show ?thesis
  proof (cases r)
    case (Inl err)
    with Pair assms show ?thesis by (simp add: dailyUnit_def jobInv_def)
  next
    case (Inr dailyData)
    define j1 where "j1 = j\<lparr>wld := (wld j)\<lparr>net := n'\<rparr>\<rparr>"
    define j2 where "j2 = (if dailyData \<noteq> [] then
                      (case batchInsertDailyData f e dailyData (wld j1) of
                         (Some err, w') \<Rightarrow> j1\<lparr>wld := w', failedCount := failedCount j1 + 1\<rparr>
                       | (None, w') \<Rightarrow> j1\<lparr>wld := w', successCount := successCount j1 + 1\<rparr>)
                    else j1)"
    have r2: "taskRows (wld j2) = taskRows (wld j)"
      unfolding j2_def j1_def
      using batchInsertDailyData_taskRows[of f e dailyData "(wld j)\<lparr>net := n'\<rparr>"]
      by (auto split: prod.splits option.splits)
    have c2: "successCount j2 + failedCount j2 \<le> k + 1"
      unfolding j2_def j1_def using assms(1)
      by (auto simp: jobInv_def split: prod.splits option.splits)
    have i2: "jobInv n (k + 1) j2" using assms(1) r2 c2 by (simp add: jobInv_def)
    have res: "dailyUnit f e tid nDates index date j =
        (if nDates = 0 then j2\<lparr>panicked := Some DivideByZeroPanic\<rparr>
         else j2\<lparr>wld := updateTaskProgress e tid ((index + 1) * 100 div nDates)
                                (successCount j2) (failedCount j2) (wld j2)\<rparr>)"
      unfolding dailyUnit_def Pair Inr j2_def j1_def Let_def by (simp only: split_conv sum.case)
    show ?thesis
    proof (cases "nDates = 0")
      case True
      with res i2 show ?thesis by (simp add: jobInv_def)
    next
      case False
      have "successCount j2 + failedCount j2 \<le> n" using c2 assms(2) by simp
      with updateTaskProgress_inv[where w = "wld j2" and n = n and s = "successCount j2"
          and f = "failedCount j2" and tid = tid and e = e] i2 c2
      show ?thesis unfolding res using False by (simp add: jobInv_def)
    qed
  qed
qed

lemma weeklyUnit_inv:
  assumes "jobInv n k j" "k < n"
  shows "jobInv n (k + 1) (weeklyUnit f e tid totalCount week_date j)"
proof (cases "GetWeeklyData (tushareClient f) (network e) week_date (net (wld j))")
  case (Pair r n')
  show ?thesis
  proof (cases r)
    case (Inl err)
    with Pair assms show ?thesis by (simp add: weeklyUnit_def jobInv_def)
  next
    case (Inr weeklyData)
    define j1 where "j1 = j\<lparr>wld := (wld j)\<lparr>net := n'\<rparr>\<rparr>"
    define j2 where "j2 = (if weeklyData \<noteq> [] then
                      (case batchInsertWeeklyData f e weeklyData (wld j1) of
                         (Some err, w') \<Rightarrow> j1\<lparr>wld := w', failedCount := failedCount j1 + 1\<rparr>
                       | (None, w') \<Rightarrow> j1\<lparr>wld := w', successCount := successCount j1 + 1\<rparr>)
                    else j1\<lparr>successCount := successCount j1 + 1\<rparr>)"
    have r2: "taskRows (wld j2) = taskRows (wld j)"
      unfolding j2_def j1_def
      using batchInsertWeeklyData_taskRows[of f e weeklyData "(wld j)\<lparr>net := n'\<rparr>"]
      by (auto split: prod.splits option.splits)
    have c2: "successCount j2 + failedCount j2 \<le> k + 1"
      unfolding j2_def j1_def using assms(1)
      by (auto simp: jobInv_def split: prod.splits option.splits)
    have i2: "jobInv n (k + 1) j2" using assms(1) r2 c2 by (simp add: jobInv_def)
    have res: "weeklyUnit f e tid totalCount week_date j =
        (if totalCount = 0 then j2\<lparr>panicked := Some DivideByZeroPanic\<rparr>
         else j2\<lparr>wld := updateTaskProgress e tid ((successCount j2 + failedCount j2) * 100 div totalCount)
                                (successCount j2) (failedCount j2) (wld j2)\<rparr>)"
      unfolding weeklyUnit_def Pair Inr j2_def j1_def Let_def by (simp only: split_conv sum.case)
    show ?thesis
    proof (cases "totalCount = 0")
      case True
      with res i2 show ?thesis by (simp add: jobInv_def)
    next
      case False
      have "successCount j2 + failedCount j2 \<le> n" using c2 assms(2) by simp
      with updateTaskProgress_inv[where w = "wld j2" and n = n and s = "successCount j2"
          and f = "failedCount j2" and tid = tid and e = e] i2 c2
      show ?thesis unfolding res using False by (simp add: jobInv_def)
    qed
  qed
qed

lemma jobInv_mono: "jobInv n k j \<Longrightarrow> k \<le> k' \<Longrightarrow> jobInv n k' j"
  by (auto simp: jobInv_def)

lemma runUnits_inv:
  assumes "\<And>u k j. jobInv n k j \<Longrightarrow> k < n \<Longrightarrow> jobInv n (k + 1) (unit u j)"
    "jobInv n k j" "k + int (length us) \<le> n"
  shows "jobInv n (k + int (length us)) (runUnits unit us j)"
  using assms(2,3)
proof (induction us arbitrary: k j)
  case Nil
  then show ?case by simp
next
  case (Cons u us)
  show ?case
  proof (cases "panicked j \<noteq> None")
    case True
    then show ?thesis using jobInv_mono[OF Cons.prems(1)] by simp
  next
    case False
    have "jobInv n (k + 1) (unit u j)" using Cons.prems by (intro assms(1)) simp_all
    from Cons.IH[OF this] Cons.prems(2) False show ?thesis by (simp add: add.assoc)
  qed
qed

lemma finishTask_inv:
  assumes "jobInv (TotalCount task) (TotalCount task) j"
  shows "list_all countsBounded (taskRows (snd (finishTask e task j)))"
    "case fst (finishTask e task j) of Inr t \<Rightarrow> countsBounded t | Inl err \<Rightarrow> True"
  using assms
  by (auto simp: finishTask_def jobInv_def dbSaveTask_def countsBounded_def Let_def split: option.splits)

lemma job_start_inv:
  assumes "dbCreateTask e t0 w = (Inr task, w1)" "TotalCount t0 = 0" "SuccessCount t0 = 0"
    "FailedCount t0 = 0" "taskRows w = []" "\<not> dbFails e (Suc (stmts w))"
  shows "jobInv (int (length dates)) 0
           \<lparr> wld = dbSaveTask e (task\<lparr>TotalCount := int (length dates)\<rparr>) (w1\<lparr>net := n2\<rparr>),
             successCount = 0, failedCount = 0, panicked = None \<rparr>"
  using assms
  by (auto simp: dbCreateTask_def jobInv_def dbSaveTask_def countsBounded_def split: if_splits)

lemma newTask_counts:
  "TotalCount (newTask p e a b) = 0" "SuccessCount (newTask p e a b) = 0"
  "FailedCount (newTask p e a b) = 0"
  by (simp_all add: newTask_def)

lemma FetchDailyDataOptimized_inv:
  assumes "taskRows w = []" "\<not> dbFails e (Suc (stmts w))"
  shows "list_all countsBounded (taskRows (snd (FetchDailyDataOptimized f e startDate endDate w)))
       \<and> (case fst (FetchDailyDataOptimized f e startDate endDate w) of
            Inr t \<Rightarrow> countsBounded t | Inl err \<Rightarrow> True)"
proof (cases "dbCreateTask e (newTask ''task_'' e startDate endDate) w")
  case (Pair r w1)
  show ?thesis
  proof (cases r)
    case (Inl err)
    then have "taskRows w1 = []" using Pair assms(1) by (auto simp: dbCreateTask_def split: if_splits)
    with Pair Inl show ?thesis by (simp add: FetchDailyDataOptimized_def)
  next
    case (Inr task)
    obtain dates n2 where g: "generateDateRange f (network e) startDate endDate (net w1) = (dates, n2)"
      by (cases "generateDateRange f (network e) startDate endDate (net w1)")
    define task' where "task' = task\<lparr>TotalCount := int (length dates)\<rparr>"
    define j0 where "j0 = \<lparr> wld = dbSaveTask e task' (w1\<lparr>net := n2\<rparr>),
             successCount = 0, failedCount = 0, panicked = None \<rparr>"
    define j where "j = runUnits (\<lambda>(i, date). dailyUnit f e (ID task') (int (length dates)) (int i) date)
                       (enumerate 0 dates) j0"
    have i0: "jobInv (int (length dates)) 0 j0"
      unfolding j0_def task'_def
      by (rule job_start_inv[OF Pair[unfolded Inr] newTask_counts assms])
    have "jobInv (int (length dates)) (0 + int (length (enumerate 0 dates))) j"
      unfolding j_def
      by (rule runUnits_inv[OF _ i0]) (auto intro: dailyUnit_inv)
    then have ij: "jobInv (TotalCount task') (TotalCount task') j" by (simp add: task'_def)
    have res: "FetchDailyDataOptimized f e startDate endDate w = finishTask e task' j"
      unfolding FetchDailyDataOptimized_def Pair Inr j_def j0_def task'_def
      by (simp add: Let_def g)
    show ?thesis unfolding res using finishTask_inv[OF ij] by simp
  qed
qed

lemma FetchWeeklyData_inv:
  assumes "taskRows w = []" "\<not> dbFails e (Suc (stmts w))"
  shows "list_all countsBounded (taskRows (snd (FetchWeeklyData f e startDate endDate w)))
       \<and> (case fst (FetchWeeklyData f e startDate endDate w) of
            Inr t \<Rightarrow> countsBounded t | Inl err \<Rightarrow> True)"
proof (cases "dbCreateTask e (newTask ''weekly_task_'' e startDate endDate) w")
  case (Pair r w1)
  show ?thesis
  proof (cases r)
    case (Inl err)
    then have "taskRows w1 = []" using Pair assms(1) by (auto simp: dbCreateTask_def split: if_splits)
    with Pair Inl show ?thesis by (simp add: FetchWeeklyData_def)
  next
    case (Inr task)
    obtain dates n2 where g: "generateWeekDateRange f (network e) startDate endDate (net w1) = (dates, n2)"
      by (cases "generateWeekDateRange f (network e) startDate endDate (net w1)")
    define task' where "task' = task\<lparr>TotalCount := int (length dates)\<rparr>"
    define j0 where "j0 = \<lparr> wld = dbSaveTask e task' (w1\<lparr>net := n2\<rparr>),
             successCount = 0, failedCount = 0, panicked = None \<rparr>"
    define j where "j = runUnits (weeklyUnit f e (ID task') (TotalCount task')) dates j0"
    have i0: "jobInv (int (length dates)) 0 j0"
      unfolding j0_def task'_def
      by (rule job_start_inv[OF Pair[unfolded Inr] newTask_counts assms])
    have "jobInv (int (length dates)) (0 + int (length dates)) j"
      unfolding j_def
      by (rule runUnits_inv[OF _ i0]) (auto intro: weeklyUnit_inv)
    then have ij: "jobInv (TotalCount task') (TotalCount task') j" by (simp add: task'_def)
    have res: "FetchWeeklyData f e startDate endDate w = finishTask e task' j"
      unfolding FetchWeeklyData_def Pair Inr j_def j0_def task'_def
      by (simp add: Let_def g)
    show ?thesis unfolding res using finishTask_inv[OF ij] by simp
  qed
qed

subsection \<open>Facts about interleaved units\<close>

lemma started_sum_le: "sum_list (map started ps) \<le> int (length ps)"
  by (induction ps) (auto simp: started_def)

lemma started_update:
  assumes "u < length ps"
  shows "sum_list (map started (ps[u := p])) = sum_list (map started ps) + started p - started (ps ! u)"
  using assms
proof (induction ps arbitrary: u)
  case Nil
  then show ?case by simp
next
  case (Cons a ps)
  then show ?case by (cases u) auto
qed

lemma list_all_update:
  "list_all P xs \<Longrightarrow> P y \<Longrightarrow> list_all P (xs[u := y])"
  by (induction xs arbitrary: u) (auto split: nat.splits)

lemma pcOk_mono:
  "pcOk c p \<Longrightarrow> nSuccess c \<le> nSuccess c' \<Longrightarrow> nFailed c \<le> nFailed c' \<Longrightarrow> pcOk c' p"
  by (auto simp: pcOk_def split: pc.splits)

lemma list_all_pcOk_mono:
  "list_all (pcOk c) ps \<Longrightarrow> nSuccess c \<le> nSuccess c' \<Longrightarrow> nFailed c \<le> nFailed c'
     \<Longrightarrow> list_all (pcOk c') ps"
  by (induction ps) (auto intro: pcOk_mono)

lemma step_ok:
  assumes "list_all (pcOk c) (pcs c)" "nSuccess c \<le> nSuccess c'" "nFailed c \<le> nFailed c'"
    "pcOk c' q"
  shows "list_all (pcOk c') ((pcs c)[u := q])"
  using assms by (auto intro!: list_all_update list_all_pcOk_mono[of c])

lemma stepUnit_inv:
  assumes "poolInv c"
  shows "poolInv (stepUnit freq outcomes u c)"
proof (cases "length (pcs c) \<le> u")
  case True
  with assms show ?thesis by (simp add: stepUnit_def)
next
  case False
  then have u: "u < length (pcs c)" by simp
  from assms have s: "nSuccess c + nFailed c \<le> sum_list (map started (pcs c))"
    and p: "list_all (pcOk c) (pcs c)"
    and w: "list_all (\<lambda>(p, s, f). s + f \<le> int (length (pcs c))) (written c)"
    by (simp_all add: poolInv_def)
  have pu: "pcOk c (pcs c ! u)" using p u by (simp add: list_all_length)
  have bound: "nSuccess c + nFailed c \<le> int (length (pcs c))"
    using s started_sum_le[of "pcs c"] by linarith
  show ?thesis
  proof (cases "pcs c ! u")
    case Ready
    have st: "sum_list (map started ((pcs c)[u := q])) = sum_list (map started (pcs c)) + started q" for q
      using started_update[OF u, of q] Ready by (simp add: started_def)
    show ?thesis
      unfolding stepUnit_def poolInv_def using u Ready s w
      by (cases "outcomes u"; cases freq)
         (auto simp: st started_def pcOk_def intro!: step_ok[OF p])
  next
    case Counted
    have st: "sum_list (map started ((pcs c)[u := q])) = sum_list (map started (pcs c)) + started q - 1" for q
      using started_update[OF u, of q] Counted by (simp add: started_def)
    show ?thesis
      unfolding stepUnit_def poolInv_def using u Counted s w
      by (cases freq) (auto simp: st started_def pcOk_def intro!: step_ok[OF p])
  next
    case (GotSuccess t)
    have st: "sum_list (map started ((pcs c)[u := q])) = sum_list (map started (pcs c)) + started q - 1" for q
      using started_update[OF u, of q] GotSuccess by (simp add: started_def)
    show ?thesis
      unfolding stepUnit_def poolInv_def using u GotSuccess s w
      by (auto simp: st started_def pcOk_def intro!: step_ok[OF p])
  next
    case (GotTotal tot)
    have st: "sum_list (map started ((pcs c)[u := q])) = sum_list (map started (pcs c)) + started q - 1" for q
      using started_update[OF u, of q] GotTotal by (simp add: started_def)
    show ?thesis
      unfolding stepUnit_def poolInv_def using u GotTotal s w
      by (auto simp: st started_def pcOk_def intro!: step_ok[OF p])
  next
    case (ArgSuccess pr sv)
    have st: "sum_list (map started ((pcs c)[u := q])) = sum_list (map started (pcs c)) + started q - 1" for q
      using started_update[OF u, of q] ArgSuccess by (simp add: started_def)
    show ?thesis
      unfolding stepUnit_def poolInv_def using u ArgSuccess s w pu
      by (auto simp: st started_def pcOk_def intro!: step_ok[OF p])
  next
    case (ArgBoth pr sv fv)
    have st: "sum_list (map started ((pcs c)[u := q])) = sum_list (map started (pcs c)) + started q - 1" for q
      using started_update[OF u, of q] ArgBoth by (simp add: started_def)
    have "sv + fv \<le> int (length (pcs c))" using pu ArgBoth bound by (simp add: pcOk_def)
    then show ?thesis
      unfolding stepUnit_def poolInv_def using u ArgBoth s w
      by (auto simp: st started_def pcOk_def intro!: step_ok[OF p])
  next
    case Done
    with assms u show ?thesis by (simp add: stepUnit_def)
  qed
qed

lemma interleave_inv: "poolInv c \<Longrightarrow> poolInv (interleave freq outcomes schedule c)"
  unfolding interleave_def
  by (induction schedule arbitrary: c) (auto intro: stepUnit_inv)

lemma stepUnit_length: "length (pcs (stepUnit freq outcomes u c)) = length (pcs c)"
  by (auto simp: stepUnit_def split: pc.splits outcome.splits frequency.splits)

lemma interleave_length: "length (pcs (interleave freq outcomes schedule c)) = length (pcs c)"
  unfolding interleave_def
  by (induction schedule arbitrary: c) (auto simp: stepUnit_length)

lemma pool0_inv: "poolInv (pool0 n)"
  by (simp add: poolInv_def pool0_def pcOk_def list_all_length started_def sum_list_replicate)

lemma interleave_bounded:
  "list_all (\<lambda>(p, s, f). s + f \<le> int n) (written (interleave freq outcomes schedule (pool0 n)))"
  "nSuccess (interleave freq outcomes schedule (pool0 n))
     + nFailed (interleave freq outcomes schedule (pool0 n)) \<le> int n"
proof -
  let ?c = "interleave freq outcomes schedule (pool0 n)"
  have i: "poolInv ?c" by (rule interleave_inv[OF pool0_inv])
  have l: "length (pcs ?c) = n" by (simp add: interleave_length pool0_def)
  from i l show "list_all (\<lambda>(p, s, f). s + f \<le> int n) (written ?c)" by (simp add: poolInv_def)
  from i l started_sum_le[of "pcs ?c"] show "nSuccess ?c + nFailed ?c \<le> int n"
    by (simp add: poolInv_def)
qed

subsection \<open>The bound on the counters of the task\<close>

text \<open>
  A job that starts with no row of its own, and whose save of total_count is applied,
  writes only rows whose two counters add up to at most total_count and returns such a
  task (units one at a time). With the units side by side the values handed to the updates
  and the two counters stay within the number of units, for every schedule and every
  outcome of the units.
\<close>

lemma task_counts_bounded_when_total_saved:
  assumes "taskRows w = []" and "\<not> dbFails e (Suc (stmts w))"
  shows "list_all countsBounded (taskRows (snd (FetchDailyDataOptimized f e startDate endDate w)))
       \<and> (case fst (FetchDailyDataOptimized f e startDate endDate w) of
            Inr task \<Rightarrow> countsBounded task | Inl err \<Rightarrow> True)
       \<and> list_all countsBounded (taskRows (snd (FetchWeeklyData f e startDate endDate w)))
       \<and> (case fst (FetchWeeklyData f e startDate endDate w) of
            Inr task \<Rightarrow> countsBounded task | Inl err \<Rightarrow> True)
       \<and> list_all (\<lambda>(p, s, f). s + f \<le> int n)
            (written (interleave freq outcomes schedule (pool0 n)))
       \<and> nSuccess (interleave freq outcomes schedule (pool0 n))
            + nFailed (interleave freq outcomes schedule (pool0 n)) \<le> int n"
  using FetchDailyDataOptimized_inv[OF assms] FetchWeeklyData_inv[OF assms]
    interleave_bounded[where n = n and freq = freq and outcomes = outcomes and schedule = schedule]
  by simp

subsection \<open>The weekly resolver on a calendar that answers\<close>

text \<open>
  When the calendar call succeeds, the list the weekly resolver works on is ascending, and
  its output holds, for every ISO (year, week) of a valid date of that list, exactly one
  date: the output dates are dates of the list, their ISO weeks are pairwise different and
  are exactly the weeks present, so the output is as long as the number of distinct weeks; it
  is strictly ascending (week order); and no date of the list in the same ISO week is later
  than the output date of that week.
\<close>

lemma generateWeekDateRange_calendar_week_ends:
  assumes "getTradeDates f prov startDate endDate s = (Inr allTradeDates, s')"
  shows "sorted allTradeDates
       \<and> set (fst (generateWeekDateRange f prov startDate endDate s)) \<subseteq> set allTradeDates
       \<and> (\<forall>x\<in>set (fst (generateWeekDateRange f prov startDate endDate s)). isoWeekOf x \<noteq> None)
       \<and> distinct (map isoWeekOf (fst (generateWeekDateRange f prov startDate endDate s)))
       \<and> isoWeekOf ` set (fst (generateWeekDateRange f prov startDate endDate s))
           = isoWeekOf ` {x \<in> set allTradeDates. isoWeekOf x \<noteq> None}
       \<and> length (fst (generateWeekDateRange f prov startDate endDate s))
           = card (isoWeekOf ` {x \<in> set allTradeDates. isoWeekOf x \<noteq> None})
       \<and> sorted_wrt (<) (fst (generateWeekDateRange f prov startDate endDate s))
       \<and> (\<forall>x\<in>set (fst (generateWeekDateRange f prov startDate endDate s)).
            \<forall>d\<in>set allTradeDates. isoWeekOf d = isoWeekOf x \<longrightarrow> d \<le> x)"
proof -
  define dates where "dates = List.map_filter Parse_20060102 allTradeDates"
  define E where "E = weekEnds dates"
  define out where "out = fst (generateWeekDateRange f prov startDate endDate s)"
  have out: "out = map Format_20060102 E"
    unfolding out_def E_def dates_def generateWeekDateRange_eq[OF assms] by simp
  have srt: "sorted allTradeDates" by (rule getTradeDates_sorted[OF assms])
  have sd: "sorted dates" unfolding dates_def by (rule sorted_map_filter_Parse[OF srt])
  have mem: "Format_20060102 e \<in> set allTradeDates" and pf: "Parse_20060102 (Format_20060102 e) = Some e"
    if "e \<in> set E" for e
    using weekEnds_parsed[of e allTradeDates] that unfolding E_def dates_def by simp_all
  have iw: "isoWeekOf (Format_20060102 e) = Some (ISOWeek e)" if "e \<in> set E" for e
    using pf[OF that] by (simp add: isoWeekOf_def)
  have miw: "map isoWeekOf out = map Some (map ISOWeek E)"
    unfolding out using iw by simp
  have valid: "{x \<in> set allTradeDates. isoWeekOf x \<noteq> None}
      = {x \<in> set allTradeDates. \<exists>t. Parse_20060102 x = Some t}"
    by (auto simp: isoWeekOf_def)
  have img: "isoWeekOf ` {x \<in> set allTradeDates. isoWeekOf x \<noteq> None} = Some ` ISOWeek ` set dates"
    unfolding valid dates_def set_map_filter isoWeekOf_def by force
  have c1: "set out \<subseteq> set allTradeDates" unfolding out using mem by auto
  have c2: "\<forall>x\<in>set out. isoWeekOf x \<noteq> None" unfolding out using iw by auto
  have c3: "distinct (map isoWeekOf out)"
    unfolding miw using weekEnds_distinct[OF sd] by (simp add: distinct_map E_def inj_on_def)
  have c4: "isoWeekOf ` set out = isoWeekOf ` {x \<in> set allTradeDates. isoWeekOf x \<noteq> None}"
  proof -
    have "isoWeekOf ` set out = set (map isoWeekOf out)" by simp
    also have "\<dots> = Some ` ISOWeek ` set E" unfolding miw by (simp add: image_image)
    also have "\<dots> = Some ` ISOWeek ` set dates" unfolding E_def weekEnds_weeks ..
    finally show ?thesis unfolding img .
  qed
  have c5: "length out = card (isoWeekOf ` {x \<in> set allTradeDates. isoWeekOf x \<noteq> None})"
    unfolding c4[symmetric] using distinct_card[OF c3] by simp
  have dE: "distinct E" using weekEnds_distinct[OF sd] unfolding E_def by (simp add: distinct_map)
  have sE: "sorted_wrt (<) E"
    using weekEnds_sorted[OF sd] dE unfolding E_def by (simp add: strict_sorted_iff)
  have "sorted_wrt (\<lambda>a b. Format_20060102 a < Format_20060102 b) E"
  proof (rule sorted_wrt_mono_rel[OF _ sE])
    fix a b assume ab: "a \<in> set E" "b \<in> set E" "a < b"
    from Parse_less_iff[OF pf[OF ab(1)] pf[OF ab(2)]] ab(3)
    show "Format_20060102 a < Format_20060102 b" by simp
  qed
  then have c6: "sorted_wrt (<) out" unfolding out by (simp add: sorted_wrt_map)
  have c7: "\<forall>x\<in>set out. \<forall>d\<in>set allTradeDates. isoWeekOf d = isoWeekOf x \<longrightarrow> d \<le> x"
  proof (intro ballI impI)
    fix x d assume x: "x \<in> set out" and d: "d \<in> set allTradeDates" and w: "isoWeekOf d = isoWeekOf x"
    from x obtain e where e: "e \<in> set E" "x = Format_20060102 e" unfolding out by auto
    from w iw[OF e(1)] e(2) obtain u where u: "Parse_20060102 d = Some u" "ISOWeek u = ISOWeek e"
      by (auto simp: isoWeekOf_def)
    have "u \<in> set dates" unfolding dates_def set_map_filter using d u(1) by auto
    from weekEnds_max[OF sd e(1)[unfolded E_def] this u(2)] have "u \<le> e" .
    then show "d \<le> x" unfolding e(2) using Parse_le_iff[OF u(1) pf[OF e(1)]] by simp
  qed
  from srt c1 c2 c3 c4 c5 c6 c7 show ?thesis unfolding out_def by blast
qed

lemma generateWeekDateRange_calendar_example:
  "getTradeDates testFetcher
     (calendarOf [(''20231208'', 1), (''20231201'', 1), (''20231205'', 1), (''20231204'', 1)])
     ''20231201'' ''20231208'' net0
     = (Inr [''20231201'', ''20231204'', ''20231205'', ''20231208''], \<lparr>calls = 1, slept = []\<rparr>)
   \<and> fst (generateWeekDateRange testFetcher
     (calendarOf [(''20231208'', 1), (''20231201'', 1), (''20231205'', 1), (''20231204'', 1)])
     ''20231201'' ''20231208'' net0) = [''20231201'', ''20231208'']
   \<and> sorted_wrt (<) (fst (generateWeekDateRange testFetcher
     (calendarOf [(''20231208'', 1), (''20231201'', 1), (''20231205'', 1), (''20231204'', 1)])
     ''20231201'' ''20231208'' net0))
   \<and> distinct (map isoWeekOf (fst (generateWeekDateRange testFetcher
     (calendarOf [(''20231208'', 1), (''20231201'', 1), (''20231205'', 1), (''20231204'', 1)])
     ''20231201'' ''20231208'' net0)))"
proof -
  let ?prov = "calendarOf [(''20231208'', 1), (''20231201'', 1), (''20231205'', 1), (''20231204'', 1)]"
  have h: "getTradeDates testFetcher ?prov ''20231201'' ''20231208'' net0
     = (Inr [''20231201'', ''20231204'', ''20231205'', ''20231208''], \<lparr>calls = 1, slept = []\<rparr>)"
    by code_simp
  have e: "fst (generateWeekDateRange testFetcher ?prov ''20231201'' ''20231208'' net0)
     = [''20231201'', ''20231208'']"
    by code_simp
  from generateWeekDateRange_calendar_week_ends[OF h] h e show ?thesis by blast
qed

section \<open>The claims\<close>

text \<open>
  C1. The row of the task falls behind the completed units, in four runs of the code.
  Under the one-at-a-time schedule, with two dates to fetch: (a) in the daily job, when the
  call for the first date fails, the unit returns right after counting the failure and makes
  no update, so the row keeps progress 0 and counters 0 after one completed unit, where the
  claim expects progress 50 and counters adding up to 1; (b) in the daily job, when the first
  date has no row, the unit counts nothing, so the counters add up to 0 after one unit and
  to 1 after both, also in the final row; (c) the weekly job behaves as (a). With two weekly
  units side by side that both insert: (d) when the second unit runs between the reads and
  the update of the first, the first unit's update comes last and leaves progress 50 and
  counters (1, 0) in the row although both units have completed: the later update is
  overwritten by the values read earlier. The rows are listed as (progress, success_count,
  failed_count, total_count) in the order they are written, those of (d) without the total.
\<close>

theorem progress_updates_missed:
  "map counters (taskRows (snd (FetchDailyDataOptimized testFetcher
     (testEnv (marketOf [(''20231201'', 1), (''20231204'', 1)]
        (\<lambda>d. if d = ''20231201'' then Inl ''timeout'' else Inr mockData)))
     ''20231201'' ''20231204'' world0)))
   = [(0, 0, 0, 0), (0, 0, 0, 2), (100, 1, 1, 2), (100, 1, 1, 2)]
   \<and> map counters (taskRows (snd (FetchDailyDataOptimized testFetcher
     (testEnv (marketOf [(''20231201'', 1), (''20231204'', 1)]
        (\<lambda>d. if d = ''20231201'' then Inr (mockData\<lparr>Items := []\<rparr>) else Inr mockData)))
     ''20231201'' ''20231204'' world0)))
   = [(0, 0, 0, 0), (0, 0, 0, 2), (50, 0, 0, 2), (100, 1, 0, 2), (100, 1, 0, 2)]
   \<and> map counters (taskRows (snd (FetchWeeklyData testFetcher
     (testEnv (marketOf [(''20231201'', 1), (''20231208'', 1)]
        (\<lambda>d. if d = ''20231201'' then Inl ''timeout'' else Inr mockData)))
     ''20231201'' ''20231208'' world0)))
   = [(0, 0, 0, 0), (0, 0, 0, 2), (100, 1, 1, 2), (100, 1, 1, 2)]
   \<and> written (interleave Weekly (\<lambda>u. Inserted) [0, 0, 0, 0, 0, 1, 1, 1, 1, 1, 1, 0] (pool0 2))
     = [(100, 2, 0), (50, 1, 0)]
   \<and> pcs (interleave Weekly (\<lambda>u. Inserted) [0, 0, 0, 0, 0, 1, 1, 1, 1, 1, 1, 0] (pool0 2))
     = [Done, Done]"
proof -
  have a: "map counters (taskRows (snd (FetchDailyDataOptimized testFetcher
       (testEnv (marketOf [(''20231201'', 1), (''20231204'', 1)]
          (\<lambda>d. if d = ''20231201'' then Inl ''timeout'' else Inr mockData)))
       ''20231201'' ''20231204'' world0)))
     = [(0, 0, 0, 0), (0, 0, 0, 2), (100, 1, 1, 2), (100, 1, 1, 2)]"
    by code_simp
  have b: "map counters (taskRows (snd (FetchDailyDataOptimized testFetcher
       (testEnv (marketOf [(''20231201'', 1), (''20231204'', 1)]
          (\<lambda>d. if d = ''20231201'' then Inr (mockData\<lparr>Items := []\<rparr>) else Inr mockData)))
       ''20231201'' ''20231204'' world0)))
     = [(0, 0, 0, 0), (0, 0, 0, 2), (50, 0, 0, 2), (100, 1, 0, 2), (100, 1, 0, 2)]"
    by code_simp
  have c: "map counters (taskRows (snd (FetchWeeklyData testFetcher
       (testEnv (marketOf [(''20231201'', 1), (''20231208'', 1)]
          (\<lambda>d. if d = ''20231201'' then Inl ''timeout'' else Inr mockData)))
       ''20231201'' ''20231208'' world0)))
     = [(0, 0, 0, 0), (0, 0, 0, 2), (100, 1, 1, 2), (100, 1, 1, 2)]"
    by code_simp
  have d: "written (interleave Weekly (\<lambda>u. Inserted) [0, 0, 0, 0, 0, 1, 1, 1, 1, 1, 1, 0] (pool0 2))
       = [(100, 2, 0), (50, 1, 0)]"
    by code_simp
  have e: "pcs (interleave Weekly (\<lambda>u. Inserted) [0, 0, 0, 0, 0, 1, 1, 1, 1, 1, 1, 0] (pool0 2))
       = [Done, Done]"
    by code_simp
  show ?thesis by (intro conjI a b c d e)
qed

text \<open>
  C2. When the row of the task can be created (the one database error the job checks) and
  the resolver returns no date, the job returns its task with total_count 0, progress 100,
  status completed and both counters 0, and that task is the last row written when the final
  save is not refused. No unit is
  dispatched: the network is left as the resolver's calendar call left it, no bar is stored,
  and exactly three statements reach the database (the creation, the save of the total and
  the final save), none of them an update of the progress, the only place where the job
  divides. This holds for the daily and for the weekly job, for a retry bound of at least 0
  (below 0 the client makes no call and fails on a nil response).
\<close>

theorem empty_date_list_completes:
  assumes "\<not> dbFails e (stmts w)" and "0 \<le> retry (tushareClient f)"
  shows "(fst (generateDateRange f (network e) startDate endDate (net w)) = [] \<longrightarrow>
           (\<exists>task w'. FetchDailyDataOptimized f e startDate endDate w = (Inr task, w')
              \<and> TotalCount task = 0 \<and> Progress task = 100 \<and> Status task = ''completed''
              \<and> SuccessCount task = 0 \<and> FailedCount task = 0
              \<and> (\<not> dbFails e (stmts w + 2) \<longrightarrow> last (taskRows w') = task)
              \<and> net w' = snd (generateDateRange f (network e) startDate endDate (net w))
              \<and> stmts w' = stmts w + 3
              \<and> stock_daily w' = stock_daily w))
       \<and> (fst (generateWeekDateRange f (network e) startDate endDate (net w)) = [] \<longrightarrow>
           (\<exists>task w'. FetchWeeklyData f e startDate endDate w = (Inr task, w')
              \<and> TotalCount task = 0 \<and> Progress task = 100 \<and> Status task = ''completed''
              \<and> SuccessCount task = 0 \<and> FailedCount task = 0
              \<and> (\<not> dbFails e (stmts w + 2) \<longrightarrow> last (taskRows w') = task)
              \<and> net w' = snd (generateWeekDateRange f (network e) startDate endDate (net w))
              \<and> stmts w' = stmts w + 3
              \<and> stock_weekly w' = stock_weekly w))"
proof (intro conjI impI)
  assume a: "fst (generateDateRange f (network e) startDate endDate (net w)) = []"
  obtain n2 where g: "generateDateRange f (network e) startDate endDate (net w) = ([], n2)"
    using a by (cases "generateDateRange f (network e) startDate endDate (net w)") simp
  show "\<exists>task w'. FetchDailyDataOptimized f e startDate endDate w = (Inr task, w')
              \<and> TotalCount task = 0 \<and> Progress task = 100 \<and> Status task = ''completed''
              \<and> SuccessCount task = 0 \<and> FailedCount task = 0
              \<and> (\<not> dbFails e (stmts w + 2) \<longrightarrow> last (taskRows w') = task)
              \<and> net w' = snd (generateDateRange f (network e) startDate endDate (net w))
              \<and> stmts w' = stmts w + 3
              \<and> stock_daily w' = stock_daily w"
    unfolding g using assms(1) g
    by (simp add: FetchDailyDataOptimized_def dbCreateTask_def dbSaveTask_def finishTask_def Let_def)
next
  assume a: "fst (generateWeekDateRange f (network e) startDate endDate (net w)) = []"
  obtain n2 where g: "generateWeekDateRange f (network e) startDate endDate (net w) = ([], n2)"
    using a by (cases "generateWeekDateRange f (network e) startDate endDate (net w)") simp
  show "\<exists>task w'. FetchWeeklyData f e startDate endDate w = (Inr task, w')
              \<and> TotalCount task = 0 \<and> Progress task = 100 \<and> Status task = ''completed''
              \<and> SuccessCount task = 0 \<and> FailedCount task = 0
              \<and> (\<not> dbFails e (stmts w + 2) \<longrightarrow> last (taskRows w') = task)
              \<and> net w' = snd (generateWeekDateRange f (network e) startDate endDate (net w))
              \<and> stmts w' = stmts w + 3
              \<and> stock_weekly w' = stock_weekly w"
    unfolding g using assms(1) g
    by (simp add: FetchWeeklyData_def dbCreateTask_def dbSaveTask_def finishTask_def Let_def)
qed

theorem empty_date_list_completes_witness:
  "\<not> dbFails (testEnv (calendarOf [(''20231201'', 0)])) (stmts world0)
   \<and> \<not> dbFails (testEnv (calendarOf [(''20231201'', 0)])) (stmts world0 + 2)
   \<and> 0 \<le> retry (tushareClient testFetcher)
   \<and> fst (generateDateRange testFetcher (network (testEnv (calendarOf [(''20231201'', 0)])))
        ''20231201'' ''20231201'' (net world0)) = []
   \<and> (\<exists>task w'. FetchDailyDataOptimized testFetcher (testEnv (calendarOf [(''20231201'', 0)]))
          ''20231201'' ''20231201'' world0 = (Inr task, w')
        \<and> TotalCount task = 0 \<and> Progress task = 100 \<and> Status task = ''completed''
        \<and> last (taskRows w') = task \<and> stmts w' = stmts world0 + 3)"
proof -
  let ?e = "testEnv (calendarOf [(''20231201'', 0)])"
  have a: "\<not> dbFails ?e (stmts world0)" by (simp add: testEnv_def)
  have a2: "\<not> dbFails ?e (stmts world0 + 2)" by (simp add: testEnv_def)
  have r: "0 \<le> retry (tushareClient testFetcher)" by (simp add: testFetcher_def testClient_def)
  have b: "fst (generateDateRange testFetcher (network ?e) ''20231201'' ''20231201'' (net world0)) = []"
    by code_simp
  from empty_date_list_completes[OF a r, of "''20231201''" "''20231201''"] b a2
  have "\<exists>task w'. FetchDailyDataOptimized testFetcher ?e ''20231201'' ''20231201'' world0 = (Inr task, w')
        \<and> TotalCount task = 0 \<and> Progress task = 100 \<and> Status task = ''completed''
        \<and> last (taskRows w') = task \<and> stmts w' = stmts world0 + 3"
    by blast
  with a a2 r b show ?thesis by blast
qed

text \<open>
  C3. A call is retried on a transport failure or a non-zero provider code, at most
  \<open>retry\<close> times after the first attempt; attempt \<open>i\<close> (counted from 1) is followed by a pause of
  \<open>i\<close> seconds before the next one; the loop stops at the first attempt that succeeds, having
  made exactly the calls up to it; and when every attempt fails the error of the last one is
  what the caller gets. With \<open>retry = 3\<close> and a server that fails twice and then answers,
  \<open>GetDailyData\<close> returns the parsed rows after exactly three calls.
\<close>

theorem request_retry:
  assumes "0 \<le> retry c"
  shows "((\<forall>j<k. \<not> succeeded (prov \<lparr> APIName = apiName, Token = token c, Params = params,
                       FieldsFilter = ff \<rparr> (calls s + j)))
          \<and> succeeded (prov \<lparr> APIName = apiName, Token = token c, Params = params,
                       FieldsFilter = ff \<rparr> (calls s + k)) \<and> int k \<le> retry c
          \<longrightarrow> request c prov apiName params ff s =
               (decoded (prov \<lparr> APIName = apiName, Token = token c, Params = params,
                       FieldsFilter = ff \<rparr> (calls s + k)),
                s\<lparr>calls := calls s + k + 1, slept := slept s @ backoff k\<rparr>))
       \<and> ((\<forall>j\<le>nat (retry c). \<not> succeeded (prov \<lparr> APIName = apiName, Token = token c,
                       Params = params, FieldsFilter = ff \<rparr> (calls s + j)))
          \<longrightarrow> request c prov apiName params ff s =
               (Inl (surfaced (prov \<lparr> APIName = apiName, Token = token c, Params = params,
                       FieldsFilter = ff \<rparr> (calls s + nat (retry c)))),
                s\<lparr>calls := calls s + nat (retry c) + 1,
                   slept := slept s @ backoff (nat (retry c))\<rparr>))
       \<and> GetDailyData (testClient 3) failsTwice ''20231201'' '''' \<lparr>calls = 0, slept = []\<rparr> =
            (Inr (parseDailyData mockData), \<lparr>calls = 3, slept = [1, 2]\<rparr>)"
  using request_success[of k prov apiName c params ff s] request_exhausted[OF _ assms, of prov apiName params ff s]
    scenario_retry by blast

theorem request_retry_witness:
  "request (testClient 3) failsTwice ''daily'' [] '''' \<lparr>calls = 0, slept = []\<rparr> =
     (Inr mockData, \<lparr>calls = 3, slept = [1, 2]\<rparr>)
   \<and> request (testClient 1) alwaysDown ''daily'' [] '''' \<lparr>calls = 0, slept = []\<rparr> =
     (Inl (TransportError ''connection refused''), \<lparr>calls = 2, slept = [1]\<rparr>)"
proof -
  have r3: "0 \<le> retry (testClient 3)" and r1: "0 \<le> retry (testClient 1)"
    by (simp_all add: testClient_def)
  have a: "request (testClient 3) failsTwice ''daily'' [] '''' \<lparr>calls = 0, slept = []\<rparr> =
     (Inr mockData, \<lparr>calls = 3, slept = [1, 2]\<rparr>)"
    using request_retry[OF r3, of 2 failsTwice "''daily''" "[]" "''''" "\<lparr>calls = 0, slept = []\<rparr>"]
    by (simp add: failsTwice_def succeeded_def decoded_def testClient_def backoff_2)
  have b: "request (testClient 1) alwaysDown ''daily'' [] '''' \<lparr>calls = 0, slept = []\<rparr> =
     (Inl (TransportError ''connection refused''), \<lparr>calls = 2, slept = [1]\<rparr>)"
    using request_retry[OF r1, of 0 alwaysDown "''daily''" "[]" "''''" "\<lparr>calls = 0, slept = []\<rparr>"]
    by (simp add: alwaysDown_def succeeded_def surfaced_def testClient_def backoff_def)
  from a b show ?thesis by simp
qed

text \<open>
  C4. A field whose column the response does not carry is read through index 0, the zero
  value of the missing map entry: with the columns \<^verbatim>\<open>ts_code, open\<close> the absent
  \<^verbatim>\<open>trade_date\<close> decodes to the stock code, and with \<^verbatim>\<open>open, ts_code\<close> every absent
  numeric field decodes to the opening price, where the claim expects the empty string and 0.
\<close>

theorem parseDailyData_absent_column:
  "parseDailyData \<lparr> Fields = [''ts_code'', ''open''],
                    Items = [[JString ''000001.SZ'', JFloat 10.5]] \<rparr> =
     [\<lparr> TSCode = ''000001.SZ'', TradeDate = ''000001.SZ'', Open = 10.5, High = 0, Low = 0,
        Close = 0, PreClose = 0, Change = 0, PctChg = 0, Vol = 0, Amount = 0 \<rparr>]
   \<and> parseDailyData \<lparr> Fields = [''open'', ''ts_code''],
                    Items = [[JFloat 10.5, JString ''000001.SZ'']] \<rparr> =
     [\<lparr> TSCode = ''000001.SZ'', TradeDate = '''', Open = 10.5, High = 10.5, Low = 10.5,
        Close = 10.5, PreClose = 10.5, Change = 10.5, PctChg = 10.5, Vol = 10.5, Amount = 10.5 \<rparr>]"
  by (simp add: parseDailyData_def fieldMap_def fieldIndex_def getString_def getFloat_def)

text \<open>
  C5. When the calendar call fails, the weekly resolver hands back what
  \<^verbatim>\<open>generateWeekDateRangeFallback\<close> returns, every weekday of the range, without grouping
  it by week. For the range from Monday 2023-12-04 to Friday 2023-12-08 it emits the five
  days, all of ISO week 49 of 2023, where one date, the last of the week, is expected; the
  comment at the call announces the last trading day of every week. On a calendar that
  answers, the grouping is right (\<open>generateWeekDateRange_calendar_week_ends\<close>).
\<close>

theorem generateWeekDateRange_fallback_every_weekday:
  "fst (generateWeekDateRange testFetcher alwaysDown ''20231204'' ''20231208'' net0)
     = [''20231204'', ''20231205'', ''20231206'', ''20231207'', ''20231208'']
   \<and> map isoWeekOf
        (fst (generateWeekDateRange testFetcher alwaysDown ''20231204'' ''20231208'' net0))
     = [Some (2023, 49), Some (2023, 49), Some (2023, 49), Some (2023, 49), Some (2023, 49)]"
proof -
  have a: "fst (generateWeekDateRange testFetcher alwaysDown ''20231204'' ''20231208'' net0)
     = [''20231204'', ''20231205'', ''20231206'', ''20231207'', ''20231208'']"
    by code_simp
  have b: "map isoWeekOf [''20231204'', ''20231205'', ''20231206'', ''20231207'', ''20231208'']
     = [Some (2023, 49), Some (2023, 49), Some (2023, 49), Some (2023, 49), Some (2023, 49)]"
    by code_simp
  show ?thesis unfolding a using b by simp
qed

text \<open>
  C6. With the calendar call failing (or returning no row), the range from 2023-09-01 to
  2023-10-01 makes the monthly resolver emit 2023-09-29 twice: once as September's month end
  (the 30th, a Saturday, rolled back), and once more for October, whose month end is cut to
  the range's end, Sunday the 1st, and rolled back into September. So one calendar month
  gets two dates, and the claim's "at most one date per calendar month" fails on this path.
\<close>

theorem generateMonthEndDates_fallback_repeats:
  "fst (generateMonthEndDates testFetcher alwaysDown ''20230901'' ''20231001'' net0)
     = [''20230929'', ''20230929'']
   \<and> fst (generateMonthEndDates testFetcher (calendarOf []) ''20230901'' ''20231001'' net0)
     = [''20230929'', ''20230929'']"
  by code_simp

text \<open>
  C7. The daily resolver sorts what the calendar call returns and neither removes repeated
  dates nor checks them against the range. With a calendar that lists 2023-12-01 twice the
  output holds that date twice, so it is neither strictly ascending nor free of duplicates;
  with a calendar that lists 2023-11-30 for the range of the single day 2023-12-01 the
  output holds a date before the start.
\<close>

theorem generateDateRange_counterexample:
  "\<not> sorted_wrt (<) (fst (generateDateRange testFetcher
        (calendarOf [(''20231201'', 1), (''20231201'', 1)]) ''20231201'' ''20231201'' net0))
   \<and> \<not> distinct (fst (generateDateRange testFetcher
        (calendarOf [(''20231201'', 1), (''20231201'', 1)]) ''20231201'' ''20231201'' net0))
   \<and> ''20231130'' \<in> set (fst (generateDateRange testFetcher
        (calendarOf [(''20231130'', 1), (''20231201'', 1)]) ''20231201'' ''20231201'' net0))
   \<and> ''20231130'' < ''20231201''"
proof -
  have a: "fst (generateDateRange testFetcher
        (calendarOf [(''20231201'', 1), (''20231201'', 1)]) ''20231201'' ''20231201'' net0)
      = [''20231201'', ''20231201'']" by code_simp
  have b: "fst (generateDateRange testFetcher
        (calendarOf [(''20231130'', 1), (''20231201'', 1)]) ''20231201'' ''20231201'' net0)
      = [''20231130'', ''20231201'']" by code_simp
  have c: "''20231130'' < ''20231201''" by code_simp
  show ?thesis unfolding a b using c by simp
qed

text \<open>
  C7, as the code has it. The output of the daily resolver is always ascending. When the
  calendar call succeeds it is the sorted list of the dates marked open; it is strictly
  ascending, that is free of duplicates, exactly when those dates are pairwise different,
  and it lies within the range (as strings) when the open dates of the calendar do. When
  the call fails, the output is strictly ascending and each of its dates is a weekday
  between the start and the end. The retry bound is at least 0 (below 0 the client fails on
  a nil response instead of returning).
\<close>

theorem generateDateRange_ascending:
  assumes "0 \<le> retry (tushareClient f)"
  shows "sorted (fst (generateDateRange f prov startDate endDate s))
     \<and> (\<forall>calData s'. GetTradeCal (tushareClient f) prov startDate endDate 1 s = (Inr calData, s') \<longrightarrow>
        fst (generateDateRange f prov startDate endDate s)
          = sort (map CalDate (filter (\<lambda>cal. IsOpen cal = 1) calData))
      \<and> (sorted_wrt (<) (fst (generateDateRange f prov startDate endDate s))
           \<longleftrightarrow> distinct (map CalDate (filter (\<lambda>cal. IsOpen cal = 1) calData)))
      \<and> ((\<forall>cal\<in>set calData. IsOpen cal = 1 \<longrightarrow> startDate \<le> CalDate cal \<and> CalDate cal \<le> endDate)
           \<longrightarrow> (\<forall>x\<in>set (fst (generateDateRange f prov startDate endDate s)).
                  startDate \<le> x \<and> x \<le> endDate)))
     \<and> (\<forall>err s'. GetTradeCal (tushareClient f) prov startDate endDate 1 s = (Inl err, s') \<longrightarrow>
        sorted_wrt (<) (fst (generateDateRange f prov startDate endDate s))
      \<and> (\<forall>x\<in>set (fst (generateDateRange f prov startDate endDate s)).
            \<exists>t. Parse_20060102 x = Some t \<and> Weekday t \<noteq> Saturday \<and> Weekday t \<noteq> Sunday
               \<and> parseIgnoringError startDate \<le> t \<and> t \<le> parseIgnoringError endDate))"
proof -
  let ?out = "fst (generateDateRange f prov startDate endDate s)"
  have okEq: "?out = sort (map CalDate (filter (\<lambda>cal. IsOpen cal = 1) calData))"
    if "GetTradeCal (tushareClient f) prov startDate endDate 1 s = (Inr calData, s')" for calData s'
    unfolding generateDateRange_def getTradeDates_def that by simp
  have erEq: "?out = map Format_20060102
       (filter isWeekday [parseIgnoringError startDate..parseIgnoringError endDate])"
    if "GetTradeCal (tushareClient f) prov startDate endDate 1 s = (Inl err, s')" for err s'
    unfolding generateDateRange_def getTradeDates_def that by (simp add: generateDateRangeFallback_eq)
  have 1: "sorted ?out"
  proof (cases rule: GetTradeCal_cases[of "tushareClient f" prov startDate endDate 1 s])
    case (ok calData s')
    then show ?thesis using okEq by simp
  next
    case (err e s')
    show ?thesis unfolding erEq[OF err] using fallback_days_strict[of startDate endDate]
      by (simp add: strict_sorted_iff)
  qed
  have 2: "(sorted_wrt (<) ?out \<longleftrightarrow> distinct (map CalDate (filter (\<lambda>cal. IsOpen cal = 1) calData)))"
    if "GetTradeCal (tushareClient f) prov startDate endDate 1 s = (Inr calData, s')" for calData s'
    unfolding okEq[OF that] by (simp add: strict_sorted_iff)
  have 3: "\<forall>x\<in>set ?out. startDate \<le> x \<and> x \<le> endDate"
    if "GetTradeCal (tushareClient f) prov startDate endDate 1 s = (Inr calData, s')"
      "\<forall>cal\<in>set calData. IsOpen cal = 1 \<longrightarrow> startDate \<le> CalDate cal \<and> CalDate cal \<le> endDate"
    for calData s'
    unfolding okEq[OF that(1)] using that(2) by auto
  have 4: "sorted_wrt (<) ?out"
    if "GetTradeCal (tushareClient f) prov startDate endDate 1 s = (Inl err, s')" for err s'
    unfolding erEq[OF that] by (rule fallback_days_strict)
  have 5: "\<forall>x\<in>set ?out. \<exists>t. Parse_20060102 x = Some t \<and> Weekday t \<noteq> Saturday \<and> Weekday t \<noteq> Sunday
               \<and> parseIgnoringError startDate \<le> t \<and> t \<le> parseIgnoringError endDate"
    if "GetTradeCal (tushareClient f) prov startDate endDate 1 s = (Inl err, s')" for err s'
    unfolding erEq[OF that] using fallback_days_member[of _ startDate endDate]
    by (auto simp: isWeekday_def)
  from 1 okEq 2 3 4 5 show ?thesis by blast
qed

theorem generateDateRange_ascending_witness:
  "0 \<le> retry (tushareClient testFetcher)
   \<and> GetTradeCal (tushareClient testFetcher) (calendarOf [(''20231204'', 1), (''20231202'', 0), (''20231201'', 1)])
      ''20231201'' ''20231204'' 1 net0
     = (Inr [\<lparr>Exchange = ''SSE'', CalDate = ''20231204'', IsOpen = 1, PreTradeDate = ''''\<rparr>,
             \<lparr>Exchange = ''SSE'', CalDate = ''20231202'', IsOpen = 0, PreTradeDate = ''''\<rparr>,
             \<lparr>Exchange = ''SSE'', CalDate = ''20231201'', IsOpen = 1, PreTradeDate = ''''\<rparr>],
        \<lparr>calls = 1, slept = []\<rparr>)
   \<and> fst (generateDateRange testFetcher
        (calendarOf [(''20231204'', 1), (''20231202'', 0), (''20231201'', 1)]) ''20231201'' ''20231204'' net0)
     = [''20231201'', ''20231204'']
   \<and> sorted_wrt (<) (fst (generateDateRange testFetcher
        (calendarOf [(''20231204'', 1), (''20231202'', 0), (''20231201'', 1)]) ''20231201'' ''20231204'' net0))
   \<and> GetTradeCal (tushareClient testFetcher) alwaysDown ''20231201'' ''20231204'' 1 net0
     = (Inl (TransportError ''connection refused''), \<lparr>calls = 1, slept = []\<rparr>)
   \<and> sorted_wrt (<) (fst (generateDateRange testFetcher alwaysDown ''20231201'' ''20231204'' net0))
   \<and> fst (generateDateRange testFetcher alwaysDown ''20231201'' ''20231204'' net0)
     = [''20231201'', ''20231204'']"
proof -
  have r: "0 \<le> retry (tushareClient testFetcher)" by (simp add: testFetcher_def testClient_def)
  let ?prov = "calendarOf [(''20231204'', 1), (''20231202'', 0), (''20231201'', 1)]"
  let ?cal = "[\<lparr>Exchange = ''SSE'', CalDate = ''20231204'', IsOpen = 1, PreTradeDate = ''''\<rparr>,
             \<lparr>Exchange = ''SSE'', CalDate = ''20231202'', IsOpen = 0, PreTradeDate = ''''\<rparr>,
             \<lparr>Exchange = ''SSE'', CalDate = ''20231201'', IsOpen = 1, PreTradeDate = ''''\<rparr>]"
  have a: "GetTradeCal (tushareClient testFetcher) ?prov ''20231201'' ''20231204'' 1 net0
     = (Inr ?cal, \<lparr>calls = 1, slept = []\<rparr>)" by code_simp
  have d: "distinct (map CalDate (filter (\<lambda>cal. IsOpen cal = 1) ?cal))" by simp
  have b: "GetTradeCal (tushareClient testFetcher) alwaysDown ''20231201'' ''20231204'' 1 net0
     = (Inl (TransportError ''connection refused''), \<lparr>calls = 1, slept = []\<rparr>)" by code_simp
  have e1: "fst (generateDateRange testFetcher ?prov ''20231201'' ''20231204'' net0)
     = [''20231201'', ''20231204'']" by code_simp
  have e2: "fst (generateDateRange testFetcher alwaysDown ''20231201'' ''20231204'' net0)
     = [''20231201'', ''20231204'']" by code_simp
  from generateDateRange_ascending[OF r, of ?prov "''20231201''" "''20231204''" net0] a d
  have s1: "sorted_wrt (<) (fst (generateDateRange testFetcher ?prov ''20231201'' ''20231204'' net0))"
    by blast
  from generateDateRange_ascending[OF r, of alwaysDown "''20231201''" "''20231204''" net0] b
  have s2: "sorted_wrt (<) (fst (generateDateRange testFetcher alwaysDown ''20231201'' ''20231204'' net0))"
    by blast
  from r a b e1 e2 s1 s2 show ?thesis by blast
qed

text \<open>
  C8. Every date the three fallback generators emit parses back to a day that is neither a
  Saturday nor a Sunday, and for an inverted range (the end before the start, as parsed)
  each of them returns the empty list. They are total functions: the loops terminate for
  every input and no step of them can fail.
\<close>

theorem fallback_generators_weekdays:
  "(\<forall>x\<in>set (generateDateRangeFallback startDate endDate).
      \<exists>t. Parse_20060102 x = Some t \<and> Weekday t \<noteq> Saturday \<and> Weekday t \<noteq> Sunday)
   \<and> (\<forall>x\<in>set (generateWeekDateRangeFallback startDate endDate).
      \<exists>t. Parse_20060102 x = Some t \<and> Weekday t \<noteq> Saturday \<and> Weekday t \<noteq> Sunday)
   \<and> (\<forall>x\<in>set (generateMonthEndDatesFallback startDate endDate).
      \<exists>t. Parse_20060102 x = Some t \<and> Weekday t \<noteq> Saturday \<and> Weekday t \<noteq> Sunday)
   \<and> (parseIgnoringError endDate < parseIgnoringError startDate \<longrightarrow>
        generateDateRangeFallback startDate endDate = []
      \<and> generateWeekDateRangeFallback startDate endDate = []
      \<and> generateMonthEndDatesFallback startDate endDate = [])"
proof -
  let ?start = "parseIgnoringError startDate" and ?end = "parseIgnoringError endDate"
  have a: "\<exists>t. Parse_20060102 x = Some t \<and> Weekday t \<noteq> Saturday \<and> Weekday t \<noteq> Sunday"
    if "x \<in> set (map Format_20060102 (filter isWeekday [?start..?end]))" for x
    using fallback_days_member[OF that] by (auto simp: isWeekday_def)
  have m: "\<exists>t. Parse_20060102 x = Some t \<and> Weekday t \<noteq> Saturday \<and> Weekday t \<noteq> Sunday"
    if "x \<in> set (generateMonthEndDatesFallback startDate endDate)" for x
  proof -
    have "\<forall>x\<in>set (monthEndLoop ?start (Date (Year ?start) (Month ?start) 1) ?end []).
           \<exists>t. x = Format_20060102 t \<and> isWeekday t \<and> ?start \<le> t \<and> t \<le> ?end"
      by (rule monthEndLoop_inv) simp
    with that obtain t where t: "x = Format_20060102 t" "isWeekday t" "?start \<le> t" "t \<le> ?end"
      unfolding generateMonthEndDatesFallback_def Let_def by blast
    have "Parse_20060102 x = Some t"
      unfolding t(1) using t(3,4) parseIgnoringError_range(1)[of startDate]
        parseIgnoringError_range(2)[of endDate] by (intro Parse_Format) linarith+
    with t(2) show ?thesis by (auto simp: isWeekday_def)
  qed
  have e: "generateDateRangeFallback startDate endDate = []"
      "generateWeekDateRangeFallback startDate endDate = []"
      "generateMonthEndDatesFallback startDate endDate = []" if "?end < ?start"
    using that monthEndLoop_inverted[OF that]
    by (simp_all add: generateDateRangeFallback_eq generateWeekDateRangeFallback_eq
          generateMonthEndDatesFallback_def)
  from a m e show ?thesis
    unfolding generateDateRangeFallback_eq generateWeekDateRangeFallback_eq by blast
qed

theorem fallback_generators_weekdays_witness:
  "generateDateRangeFallback ''20231201'' ''20231204'' = [''20231201'', ''20231204'']
   \<and> generateMonthEndDatesFallback ''20230901'' ''20230930'' = [''20230929'']
   \<and> (\<exists>t. Parse_20060102 ''20231204'' = Some t \<and> Weekday t \<noteq> Saturday \<and> Weekday t \<noteq> Sunday)
   \<and> (\<exists>t. Parse_20060102 ''20230929'' = Some t \<and> Weekday t \<noteq> Saturday \<and> Weekday t \<noteq> Sunday)
   \<and> parseIgnoringError ''20231201'' < parseIgnoringError ''20231204''
   \<and> generateDateRangeFallback ''20231204'' ''20231201'' = []
   \<and> generateWeekDateRangeFallback ''20231204'' ''20231201'' = []
   \<and> generateMonthEndDatesFallback ''20231204'' ''20231201'' = []"
proof -
  have a: "generateDateRangeFallback ''20231201'' ''20231204'' = [''20231201'', ''20231204'']"
    by code_simp
  have b: "generateMonthEndDatesFallback ''20230901'' ''20230930'' = [''20230929'']"
    by code_simp
  have c: "parseIgnoringError ''20231201'' < parseIgnoringError ''20231204''"
    by code_simp
  from fallback_generators_weekdays[of "''20231201''" "''20231204''"] a
  have d: "\<exists>t. Parse_20060102 ''20231204'' = Some t \<and> Weekday t \<noteq> Saturday \<and> Weekday t \<noteq> Sunday"
    by simp
  from fallback_generators_weekdays[of "''20230901''" "''20230930''"] b
  have e: "\<exists>t. Parse_20060102 ''20230929'' = Some t \<and> Weekday t \<noteq> Saturday \<and> Weekday t \<noteq> Sunday"
    by simp
  from fallback_generators_weekdays[of "''20231204''" "''20231201''"] c
  have f: "generateDateRangeFallback ''20231204'' ''20231201'' = []
      \<and> generateWeekDateRangeFallback ''20231204'' ''20231201'' = []
      \<and> generateMonthEndDatesFallback ''20231204'' ''20231201'' = []"
    by blast
  from a b c d e f show ?thesis by blast
qed

text \<open>
  C9. The job saves total_count with \<^verbatim>\<open>f.db.Save(task)\<close> and does not look at the
  outcome. When that save is refused the row keeps total_count 0, and the updates of the
  units then write their counters into it. With two dates that both insert, and a database
  that refuses the second statement only, the rows of the daily and of the weekly job are
  (progress, success_count, failed_count, total_count) = (0, 0, 0, 0), (50, 1, 0, 0),
  (100, 2, 0, 0) and, after the final save, (100, 2, 0, 2): in the second and the third
  success_count + failed_count exceeds total_count. When the save of total_count is applied
  the bound holds for every row (\<open>task_counts_bounded_when_total_saved\<close>).
\<close>

theorem task_counts_exceed_unsaved_total:
  "map counters (taskRows (snd (FetchDailyDataOptimized testFetcher
        ((testEnv (marketOf [(''20231201'', 1), (''20231204'', 1)] (\<lambda>d. Inr mockData)))
           \<lparr>dbFails := (\<lambda>n. n = 1)\<rparr>)
        ''20231201'' ''20231204'' world0)))
     = [(0, 0, 0, 0), (50, 1, 0, 0), (100, 2, 0, 0), (100, 2, 0, 2)]
   \<and> map counters (taskRows (snd (FetchWeeklyData testFetcher
        ((testEnv (marketOf [(''20231201'', 1), (''20231208'', 1)] (\<lambda>d. Inr mockData)))
           \<lparr>dbFails := (\<lambda>n. n = 1)\<rparr>)
        ''20231201'' ''20231208'' world0)))
     = [(0, 0, 0, 0), (50, 1, 0, 0), (100, 2, 0, 0), (100, 2, 0, 2)]
   \<and> \<not> list_all countsBounded (taskRows (snd (FetchDailyDataOptimized testFetcher
        ((testEnv (marketOf [(''20231201'', 1), (''20231204'', 1)] (\<lambda>d. Inr mockData)))
           \<lparr>dbFails := (\<lambda>n. n = 1)\<rparr>)
        ''20231201'' ''20231204'' world0)))
   \<and> \<not> list_all countsBounded (taskRows (snd (FetchWeeklyData testFetcher
        ((testEnv (marketOf [(''20231201'', 1), (''20231208'', 1)] (\<lambda>d. Inr mockData)))
           \<lparr>dbFails := (\<lambda>n. n = 1)\<rparr>)
        ''20231201'' ''20231208'' world0)))"
proof -
  have a: "map counters (taskRows (snd (FetchDailyDataOptimized testFetcher
        ((testEnv (marketOf [(''20231201'', 1), (''20231204'', 1)] (\<lambda>d. Inr mockData)))
           \<lparr>dbFails := (\<lambda>n. n = 1)\<rparr>)
        ''20231201'' ''20231204'' world0)))
     = [(0, 0, 0, 0), (50, 1, 0, 0), (100, 2, 0, 0), (100, 2, 0, 2)]"
    by code_simp
  have b: "map counters (taskRows (snd (FetchWeeklyData testFetcher
        ((testEnv (marketOf [(''20231201'', 1), (''20231208'', 1)] (\<lambda>d. Inr mockData)))
           \<lparr>dbFails := (\<lambda>n. n = 1)\<rparr>)
        ''20231201'' ''20231208'' world0)))
     = [(0, 0, 0, 0), (50, 1, 0, 0), (100, 2, 0, 0), (100, 2, 0, 2)]"
    by code_simp
  have c: "\<not> list_all countsBounded rows"
    if "map counters rows = [(0, 0, 0, 0), (50, 1, 0, 0), (100, 2, 0, 0), (100, 2, 0, 2)]"
    for rows
  proof
    assume all: "list_all countsBounded rows"
    from that obtain r0 r1 rest where rows: "rows = r0 # r1 # rest" and r1: "counters r1 = (50, 1, 0, 0)"
      by (cases rows; cases "tl rows") auto
    from all rows have "countsBounded r1" by simp
    with r1 show False by (simp add: countsBounded_def counters_def)
  qed
  from a b c[OF a] c[OF b] show ?thesis by (intro conjI)
qed

text \<open>
  C10. The monthly insert stores what it is given: the dates of a monthly bar were parsed
  when the response was decoded, where a string that does not parse becomes the zero time,
  and the insert has no check that could drop a record. A monthly response of three rows
  whose second has the trade date \<^verbatim>\<open>2023-12-29\<close> is stored as three records, the second
  with the zero date (day 0 of the model; 738882 and 738884 are 2023-12-29 and 2023-12-31).
\<close>

theorem batch_insert_monthly_counterexample:
  "map (\<lambda>r. (TSCode r, TradeDate r, EndDate r))
     (stock_monthly (snd (batchInsertMonthlyData testFetcher (testEnv alwaysDown)
        (parseMonthlyData weekRows) world0)))
   = [(''000001.SZ'', 738882, 738884), (''000002.SZ'', zeroTime, 738884),
      (''000003.SZ'', 738882, 738884)]
   \<and> Parse_20060102 ''2023-12-29'' = None"
  by code_simp

text \<open>
  C10, as the code has it. With a positive batch size and a database that accepts every
  statement: the weekly insert stores, in order, the records both of whose date strings
  parse and drops the others; the daily insert stores every record, with the zero date
  where the trade date does not parse; the monthly insert stores every record it is given,
  and a date string that does not parse has reached it as the zero date.
\<close>

theorem batch_insert_date_handling:
  assumes "0 < BatchSize (config f)" "\<forall>n. \<not> dbFails e n"
  shows "fst (batchInsertWeeklyData f e weeklyData w) = None
       \<and> stock_weekly (snd (batchInsertWeeklyData f e weeklyData w))
           = stock_weekly w @ map weeklyRecord (filter datesParse weeklyData)
       \<and> fst (batchInsertDailyData f e dailyData w) = None
       \<and> map TSCode (stock_daily (snd (batchInsertDailyData f e dailyData w)))
           = map TSCode (stock_daily w) @ map TSCode dailyData
       \<and> map TradeDate (stock_daily (snd (batchInsertDailyData f e dailyData w)))
           = map TradeDate (stock_daily w)
             @ map (\<lambda>data. parseIgnoringError (TradeDate data)) dailyData
       \<and> fst (batchInsertMonthlyData f e monthlyData w) = None
       \<and> stock_monthly (snd (batchInsertMonthlyData f e monthlyData w))
           = stock_monthly w @ monthlyData
       \<and> (\<forall>str. Parse_20060102 str = None \<longrightarrow> getTime [JString str] 0 = zeroTime)"
proof -
  have wk: "fst (batchInsertWeeklyData f e weeklyData w) = None
       \<and> stock_weekly (snd (batchInsertWeeklyData f e weeklyData w))
           = stock_weekly w @ weeklyRecords (drop (nat 0) weeklyData)"
    unfolding batchInsertWeeklyData_def
    by (rule batchLoop_appends[OF assms(1)])
       (use assms(2) in \<open>simp_all add: createWeekly_def weeklyRecords_append\<close>)
  have dy: "fst (batchInsertDailyData f e dailyData w) = None
       \<and> stock_daily (snd (batchInsertDailyData f e dailyData w))
           = stock_daily w @ dailyRecords (drop (nat 0) dailyData)"
    unfolding batchInsertDailyData_def
    by (rule batchLoop_appends[OF assms(1)])
       (use assms(2) in \<open>simp_all add: createDaily_def dailyRecords_append\<close>)
  have mo: "fst (batchInsertMonthlyData f e monthlyData w) = None
       \<and> stock_monthly (snd (batchInsertMonthlyData f e monthlyData w))
           = stock_monthly w @ monthlyRecords (drop (nat 0) monthlyData)"
    unfolding batchInsertMonthlyData_def
    by (rule batchLoop_appends[OF assms(1)])
       (use assms(2) in \<open>simp_all add: createMonthly_def monthlyRecords_id\<close>)
  have gt: "\<forall>str. Parse_20060102 str = None \<longrightarrow> getTime [JString str] 0 = zeroTime"
    by (simp add: getTime_def)
  from wk dy mo gt show ?thesis
    by (simp add: weeklyRecords_eq dailyRecords_dates monthlyRecords_id)
qed

theorem batch_insert_date_handling_witness:
  "map TSCode (stock_weekly (snd (batchInsertWeeklyData testFetcher (testEnv alwaysDown)
        (parseWeeklyData weekRows) world0))) = [''000001.SZ'', ''000003.SZ'']
   \<and> map TradeDate (stock_daily (snd (batchInsertDailyData testFetcher (testEnv alwaysDown)
        (parseDailyData weekRows) world0))) = [738882, zeroTime, 738882]
   \<and> map TSCode (stock_monthly (snd (batchInsertMonthlyData testFetcher (testEnv alwaysDown)
        (parseMonthlyData weekRows) world0))) = [''000001.SZ'', ''000002.SZ'', ''000003.SZ'']
   \<and> fst (batchInsertWeeklyData testFetcher (testEnv alwaysDown)
        (parseWeeklyData weekRows) world0) = None"
proof -
  have a: "0 < BatchSize (config testFetcher)" by (simp add: testFetcher_def)
  have b: "\<forall>n. \<not> dbFails (testEnv alwaysDown) n" by (simp add: testEnv_def)
  note t = batch_insert_date_handling[OF a b, of "parseWeeklyData weekRows" world0
      "parseDailyData weekRows" "parseMonthlyData weekRows"]
  have w: "map TSCode (map weeklyRecord (filter datesParse (parseWeeklyData weekRows)))
      = [''000001.SZ'', ''000003.SZ'']" by code_simp
  have d: "map (\<lambda>data. parseIgnoringError (TradeDate data)) (parseDailyData weekRows)
      = [738882, zeroTime, 738882]" by code_simp
  have m: "map TSCode (parseMonthlyData weekRows) = [''000001.SZ'', ''000002.SZ'', ''000003.SZ'']"
    by code_simp
  have z: "stock_weekly world0 = []" "stock_daily world0 = []" "stock_monthly world0 = []"
    by (simp_all add: world0_def)
  from t w d m show ?thesis unfolding z by simp
qed


end
